theory Spec2Isabelle
  imports Main "HOL-Library.Word" "HOL-Library.Sublist"
begin

section \<open>Strings of the host language\<close>

text \<open>
  A JavaScript string is a sequence of 16-bit code units. Literals of the source are
  written with \<open>js\<close>, which maps every character of an Isabelle literal to its code unit.
\<close>

type_synonym jschar = "16 word"
type_synonym jsstring = "jschar list"

definition ch :: "char \<Rightarrow> jschar" where
  "ch c = of_char c"

definition js :: "string \<Rightarrow> jsstring" where
  "js = map ch"

definition is_white :: "jschar \<Rightarrow> bool" where
  \<comment> \<open>WhiteSpace and LineTerminator of ECMAScript, the characters \<open>String.prototype.trim\<close> removes.\<close>
  "is_white c \<longleftrightarrow>
     c = 0x09 \<or> c = 0x0A \<or> c = 0x0B \<or> c = 0x0C \<or> c = 0x0D \<or> c = 0x20 \<or> c = 0xA0
     \<or> c = 0x1680 \<or> (0x2000 \<le> c \<and> c \<le> 0x200A) \<or> c = 0x2028 \<or> c = 0x2029
     \<or> c = 0x202F \<or> c = 0x205F \<or> c = 0x3000 \<or> c = 0xFEFF"

definition trim :: "jsstring \<Rightarrow> jsstring" where
  "trim s = rev (dropWhile is_white (rev (dropWhile is_white s)))"

section \<open>JSON values and \<open>JSON.parse\<close>\<close>

text \<open>
  The values \<open>JSON.parse\<close> can return. A number keeps its literal (the rounding to a
  double is not modelled); an object is its list of members.
\<close>

datatype json =
    JNull
  | JBool bool
  | JNumber jsstring
  | JString jsstring
  | JArray "json list"
  | JObject "(jsstring \<times> json) list"

datatype token =
    TLBrace | TRBrace | TLBracket | TRBracket | TColon | TComma
  | TString jsstring | TNumber jsstring | TTrue | TFalse | TNull

definition is_json_ws :: "jschar \<Rightarrow> bool" where
  \<comment> \<open>The four whitespace characters of the JSON grammar.\<close>
  "is_json_ws c \<longleftrightarrow> c = 0x09 \<or> c = 0x0A \<or> c = 0x0D \<or> c = 0x20"

definition is_digit :: "jschar \<Rightarrow> bool" where
  "is_digit c \<longleftrightarrow> 0x30 \<le> c \<and> c \<le> 0x39"

definition hexval :: "jschar \<Rightarrow> jschar option" where
  "hexval c =
     (if 0x30 \<le> c \<and> c \<le> 0x39 then Some (c - 0x30)
      else if 0x41 \<le> c \<and> c \<le> 0x46 then Some (c - 0x37)
      else if 0x61 \<le> c \<and> c \<le> 0x66 then Some (c - 0x57)
      else None)"

fun hex4 :: "jsstring \<Rightarrow> jschar option" where
  "hex4 (a # b # c # d # _) =
     (case (hexval a, hexval b, hexval c, hexval d) of
        (Some x, Some y, Some z, Some w) \<Rightarrow> Some (((x * 16 + y) * 16 + z) * 16 + w)
      | _ \<Rightarrow> None)"
| "hex4 _ = None"

definition escape :: "jschar \<Rightarrow> jschar option" where
  \<comment> \<open>The single-character escapes of a JSON string, after the backslash.\<close>
  \<open>escape e =
     (if e = ch CHR ''"'' then Some (ch CHR ''"'')
      else if e = ch CHR 0x5C then Some (ch CHR 0x5C)
      else if e = ch CHR ''/'' then Some (ch CHR ''/'')
      else if e = ch CHR ''b'' then Some 0x08
      else if e = ch CHR ''f'' then Some 0x0C
      else if e = ch CHR ''n'' then Some 0x0A
      else if e = ch CHR ''r'' then Some 0x0D
      else if e = ch CHR ''t'' then Some 0x09
      else None)\<close>

fun string_body :: "jsstring \<Rightarrow> (jsstring \<times> nat) option" where
  \<comment> \<open>The characters of a string after its opening quote: the decoded string and the
      number of code units read, closing quote included.\<close>
  "string_body [] = None"
| \<open>string_body (c # cs) =
     (if c = ch CHR ''"'' then Some ([], 1)
      else if c = ch CHR 0x5C then
        (case cs of
           [] \<Rightarrow> None
         | e # es \<Rightarrow>
             if e = ch CHR ''u'' then
               (case hex4 es of
                  None \<Rightarrow> None
                | Some u \<Rightarrow> map_option (\<lambda>(s, n). (u # s, n + 6)) (string_body (drop 4 es)))
             else
               (case escape e of
                  None \<Rightarrow> None
                | Some x \<Rightarrow> map_option (\<lambda>(s, n). (x # s, n + 2)) (string_body es)))
      else if c < 0x20 then None
      else map_option (\<lambda>(s, n). (c # s, n + 1)) (string_body cs))\<close>

definition digits :: "jsstring \<Rightarrow> nat" where
  "digits cs = length (takeWhile is_digit cs)"

definition number_length :: "jsstring \<Rightarrow> nat option" where
  \<comment> \<open>The length of the JSON number that starts the text:
      \<open>-? (0 | [1-9][0-9]*) (. [0-9]+)? ([eE] [+-]? [0-9]+)?\<close>.\<close>
  "number_length cs =
     (let s = (if prefix [ch CHR ''-''] cs then 1 else 0);
          r1 = drop s cs;
          i = (if prefix [ch CHR ''0''] r1 then 1 else digits r1);
          r2 = drop i r1;
          has_frac = prefix [ch CHR ''.''] r2;
          f = (if has_frac then 1 + digits (drop 1 r2) else 0);
          r3 = drop f r2;
          has_exp = (prefix [ch CHR ''e''] r3 \<or> prefix [ch CHR ''E''] r3);
          g = (if has_exp \<and> (prefix [ch CHR ''+''] (drop 1 r3) \<or> prefix [ch CHR ''-''] (drop 1 r3))
               then 1 else 0);
          x = (if has_exp then 1 + g + digits (drop (1 + g) r3) else 0)
      in if i = 0 \<or> (has_frac \<and> f = 1) \<or> (has_exp \<and> x = 1 + g) then None
         else Some (s + i + f + x))"

definition is_number_char :: "jschar \<Rightarrow> bool" where
  "is_number_char c \<longleftrightarrow>
     is_digit c \<or> c = ch CHR ''-'' \<or> c = ch CHR ''+'' \<or> c = ch CHR ''.''
     \<or> c = ch CHR ''e'' \<or> c = ch CHR ''E''"

definition punctuation :: "jschar \<Rightarrow> token option" where
  \<open>punctuation c =
     (if c = ch CHR ''{'' then Some TLBrace
      else if c = ch CHR ''}'' then Some TRBrace
      else if c = ch CHR ''['' then Some TLBracket
      else if c = ch CHR '']'' then Some TRBracket
      else if c = ch CHR '':'' then Some TColon
      else if c = ch CHR '','' then Some TComma
      else None)\<close>

fun tokenize :: "jsstring \<Rightarrow> token list option" where
  \<comment> \<open>The tokens of the text. A number is the longest run of number characters, and
      the run has to be a number of the grammar.\<close>
  "tokenize [] = Some []"
| \<open>tokenize (c # cs) =
     (if is_json_ws c then tokenize cs
      else
        (case punctuation c of
           Some t \<Rightarrow> map_option ((#) t) (tokenize cs)
         | None \<Rightarrow>
             if c = ch CHR ''"'' then
               (case string_body cs of
                  None \<Rightarrow> None
                | Some (s, n) \<Rightarrow> map_option ((#) (TString s)) (tokenize (drop n cs)))
             else if prefix (js ''true'') (c # cs) then map_option ((#) TTrue) (tokenize (drop 3 cs))
             else if prefix (js ''false'') (c # cs) then map_option ((#) TFalse) (tokenize (drop 4 cs))
             else if prefix (js ''null'') (c # cs) then map_option ((#) TNull) (tokenize (drop 3 cs))
             else
               (let l = takeWhile is_number_char (c # cs) in
                if number_length l = Some (length l)
                then map_option ((#) (TNumber l)) (tokenize (drop (length l - 1) cs))
                else None)))\<close>

text \<open>
  The grammar of JSON values over the tokens, as a pushdown automaton: the stack holds the
  arrays and objects that are open, the mode says what may come next.
\<close>

datatype frame =
    FArr "json list"
  | FObj "(jsstring \<times> json) list"
  | FMem "(jsstring \<times> json) list" jsstring

datatype mode = MValue | MFirstElem | MFirstKey | MKey | MColon | MNext | MDone json

fun deliver :: "json \<Rightarrow> frame list \<Rightarrow> (mode \<times> frame list) option" where
  \<comment> \<open>A value is complete: it is the whole text, an element, or the value of a member.\<close>
  "deliver v [] = Some (MDone v, [])"
| "deliver v (FArr xs # st) = Some (MNext, FArr (xs @ [v]) # st)"
| "deliver v (FMem ms k # st) = Some (MNext, FObj (ms @ [(k, v)]) # st)"
| "deliver v (FObj ms # st) = None"

fun scalar :: "token \<Rightarrow> json option" where
  "scalar (TString s) = Some (JString s)"
| "scalar (TNumber n) = Some (JNumber n)"
| "scalar TTrue = Some (JBool True)"
| "scalar TFalse = Some (JBool False)"
| "scalar TNull = Some JNull"
| "scalar _ = None"

fun start_value :: "token \<Rightarrow> frame list \<Rightarrow> (mode \<times> frame list) option" where
  "start_value TLBracket st = Some (MFirstElem, FArr [] # st)"
| "start_value TLBrace st = Some (MFirstKey, FObj [] # st)"
| "start_value t st = (case scalar t of None \<Rightarrow> None | Some v \<Rightarrow> deliver v st)"

fun step :: "mode \<times> frame list \<Rightarrow> token \<Rightarrow> (mode \<times> frame list) option" where
  "step (MValue, st) t = start_value t st"
| "step (MFirstElem, FArr xs # st) TRBracket = deliver (JArray xs) st"
| "step (MFirstElem, st) t = start_value t st"
| "step (MFirstKey, FObj ms # st) TRBrace = deliver (JObject ms) st"
| "step (MFirstKey, FObj ms # st) (TString k) = Some (MColon, FMem ms k # st)"
| "step (MKey, FObj ms # st) (TString k) = Some (MColon, FMem ms k # st)"
| "step (MColon, st) TColon = Some (MValue, st)"
| "step (MNext, FArr xs # st) TComma = Some (MValue, FArr xs # st)"
| "step (MNext, FArr xs # st) TRBracket = deliver (JArray xs) st"
| "step (MNext, FObj ms # st) TComma = Some (MKey, FObj ms # st)"
| "step (MNext, FObj ms # st) TRBrace = deliver (JObject ms) st"
| "step _ _ = None"

fun run :: "mode \<times> frame list \<Rightarrow> token list \<Rightarrow> (mode \<times> frame list) option" where
  "run s [] = Some s"
| "run s (t # ts) = (case step s t of None \<Rightarrow> None | Some s' \<Rightarrow> run s' ts)"

fun finish :: "mode \<times> frame list \<Rightarrow> json option" where
  "finish (MDone v, []) = Some v"
| "finish _ = None"

definition JSON_tree :: "jsstring \<Rightarrow> json option" where
  \<comment> \<open>The value as the text writes it, every member of every object kept.\<close>
  "JSON_tree text =
     (case tokenize text of
        None \<Rightarrow> None
      | Some ts \<Rightarrow> (case run (MValue, []) ts of None \<Rightarrow> None | Some s \<Rightarrow> finish s))"

fun define_property :: "(jsstring \<times> json) list \<Rightarrow> jsstring \<times> json \<Rightarrow> (jsstring \<times> json) list" where
  \<comment> \<open>Defining a property: a name that is already there keeps its place and takes
      the new value.\<close>
  "define_property [] (k, v) = [(k, v)]"
| "define_property ((k', v') # ms) (k, v) =
     (if k' = k then (k, v) # ms else (k', v') # define_property ms (k, v))"

fun object_value :: "json \<Rightarrow> json" where
  \<comment> \<open>The object the text denotes: among members of one name the last one wins.\<close>
  "object_value (JArray xs) = JArray (map object_value xs)"
| "object_value (JObject ms) = JObject (foldl define_property [] (map (\<lambda>(k, v). (k, object_value v)) ms))"
| "object_value v = v"

definition JSON_parse :: "jsstring \<Rightarrow> json option" where
  \<comment> \<open>\<open>JSON.parse(text)\<close>; \<open>None\<close> is the SyntaxError it throws.\<close>
  "JSON_parse text = map_option object_value (JSON_tree text)"

section \<open>The recipe generator\<close>

text \<open>
  \<open>generateRecipes\<close> of \<open>RecipeGenerator.tsx\<close>. The recipes it handles are the values
  \<open>JSON.parse\<close> returns: the interface \<open>Recipe\<close> is not checked when the program runs.
\<close>

datatype error = SyntaxError | TypeError | RequestError

definition prompt_head :: string where
  "prompt_head =
     ''\<newline>'' @
     ''    Generate 3 recipes in valid JSON format based on these available ingredients:\<newline>'' @
     ''    ''"

definition prompt_tail :: string where
  \<open>prompt_tail =
     ''.\<newline>'' @
     ''\<newline>'' @
     ''    Each recipe must follow this exact TypeScript interface:\<newline>'' @
     ''    [\<newline>'' @
     ''      {\<newline>'' @
     ''        "id": "string",\<newline>'' @
     ''        "name": "string",\<newline>'' @
     ''        "calories": number,\<newline>'' @
     ''        "protein": number,\<newline>'' @
     ''        "carbs": number,\<newline>'' @
     ''        "fats": number,\<newline>'' @
     ''        "servings": number,\<newline>'' @
     ''        "cookTime": number,\<newline>'' @
     ''        "difficulty": "Easy" | "Medium" | "Hard",\<newline>'' @
     ''        "ingredients": ["string"],\<newline>'' @
     ''        "instructions": ["string"],\<newline>'' @
     ''        "tags": ["string"],\<newline>'' @
     ''        "pantryMatch": number\<newline>'' @
     ''      }\<newline>'' @
     ''    ]\<newline>'' @
     ''    Output *only pure JSON* (no markdown, explanations, or extra text).\<newline>'' @
     ''    ''\<close>

definition prompt :: "jsstring \<Rightarrow> jsstring" where
  \<comment> \<open>The template literal, with \<open>availableIngredients || "no ingredients"\<close> in its hole:
      the empty string is the one string that is falsy.\<close>
  "prompt availableIngredients =
     js prompt_head
     @ (if availableIngredients = [] then js ''no ingredients'' else availableIngredients)
     @ js prompt_tail"

definition FENCE :: jsstring where
  "FENCE = js ''```''"

definition FENCE_JSON :: jsstring where
  "FENCE_JSON = js ''```json''"

fun strip_fences :: "jsstring \<Rightarrow> jsstring" where
  \<comment> \<open>\<open>text.replace(/```json|```/g, "")\<close>: from left to right, at every position the
      first alternative that matches is deleted and the search goes on behind it.\<close>
  "strip_fences [] = []"
| "strip_fences (c # cs) =
     (if prefix FENCE_JSON (c # cs) then strip_fences (drop 6 cs)
      else if prefix FENCE (c # cs) then strip_fences (drop 2 cs)
      else c # strip_fences cs)"

definition cleanText :: "jsstring \<Rightarrow> jsstring" where
  "cleanText text = trim (strip_fences text)"

definition tags_of :: "json \<Rightarrow> error + json option" where
  \<comment> \<open>\<open>r.tags\<close>: reading a property of \<open>null\<close> throws; a value without the property
      gives \<open>undefined\<close>, here \<open>None\<close>.\<close>
  "tags_of r =
     (case r of
        JNull \<Rightarrow> Inl TypeError
      | JObject ms \<Rightarrow> Inr (map_of ms (js ''tags''))
      | _ \<Rightarrow> Inr None)"

definition js_includes :: "json option \<Rightarrow> jsstring \<Rightarrow> error + bool" where
  \<comment> \<open>\<open>t.includes(x)\<close> for a string \<open>x\<close>: arrays compare their elements with \<open>x\<close>, strings
      search \<open>x\<close> as a substring, and no other value has the method.\<close>
  "js_includes t x =
     (case t of
        Some (JArray xs) \<Rightarrow> Inr (JString x \<in> set xs)
      | Some (JString s) \<Rightarrow> Inr (sublist x s)
      | _ \<Rightarrow> Inl TypeError)"

definition keeps :: "json \<Rightarrow> error + bool" where
  \<comment> \<open>\<open>(r) => r.tags.includes("Vegetarian") || r.tags.includes("Vegan")\<close>\<close>
  "keeps r =
     (case tags_of r of
        Inl e \<Rightarrow> Inl e
      | Inr t \<Rightarrow>
          (case js_includes t (js ''Vegetarian'') of
             Inl e \<Rightarrow> Inl e
           | Inr True \<Rightarrow> Inr True
           | Inr False \<Rightarrow>
               (case tags_of r of Inl e \<Rightarrow> Inl e | Inr t' \<Rightarrow> js_includes t' (js ''Vegan''))))"

fun filter_array :: "(json \<Rightarrow> error + bool) \<Rightarrow> json list \<Rightarrow> error + json list" where
  \<comment> \<open>\<open>Array.prototype.filter\<close> with a callback that may throw.\<close>
  "filter_array p [] = Inr []"
| "filter_array p (x # xs) =
     (case p x of
        Inl e \<Rightarrow> Inl e
      | Inr b \<Rightarrow>
          (case filter_array p xs of
             Inl e \<Rightarrow> Inl e
           | Inr ys \<Rightarrow> Inr (if b then x # ys else ys)))"

definition filteredRecipes :: "jsstring \<Rightarrow> json \<Rightarrow> error + json" where
  \<comment> \<open>Lines 91 to 96; only an array has the method \<open>filter\<close>.\<close>
  "filteredRecipes dietType parsed =
     (if dietType = js ''vegetarian'' \<or> dietType = js ''vegan'' then
        (case parsed of
           JArray rs \<Rightarrow>
             (case filter_array keeps rs of Inl e \<Rightarrow> Inl e | Inr ys \<Rightarrow> Inr (JArray ys))
         | _ \<Rightarrow> Inl TypeError)
      else Inr parsed)"

datatype jsvalue = Undefined | Number nat | Value json

definition length_of :: "json \<Rightarrow> error + jsvalue" where
  \<comment> \<open>\<open>filteredRecipes.length\<close>\<close>
  "length_of v =
     (case v of
        JNull \<Rightarrow> Inl TypeError
      | JArray xs \<Rightarrow> Inr (Number (length xs))
      | JString s \<Rightarrow> Inr (Number (length s))
      | JObject ms \<Rightarrow> Inr (case map_of ms (js ''length'') of None \<Rightarrow> Undefined | Some x \<Rightarrow> Value x)
      | _ \<Rightarrow> Inr Undefined)"

fun unprintable :: "json \<Rightarrow> bool" where
  \<comment> \<open>The conversion to a string inside a template literal throws: an object whose own
      \<open>toString\<close> is not a function, or an array that holds one.\<close>
  "unprintable (JObject ms) = (map_of ms (js ''toString'') \<noteq> None)"
| "unprintable (JArray xs) = (\<exists>x \<in> set xs. unprintable x)"
| "unprintable _ = False"

datatype toast =
    RecipesGenerated jsvalue
      \<comment> \<open>"Recipes Generated!", "Found \<open>n\<close> new recipes matching your preferences."\<close>
  | InvalidJSON
      \<comment> \<open>"Error", "AI returned invalid JSON. Please try again."\<close>
  | GenerationFailed
      \<comment> \<open>"Error", "Failed to generate recipes. Please try again later."\<close>

record ui =
  recipes :: json
  isGenerating :: bool
  toasts :: "toast list"

definition initial :: ui where
  \<comment> \<open>\<open>useState<Recipe[]>([])\<close>, \<open>useState(false)\<close>\<close>
  "initial = \<lparr>recipes = JArray [], isGenerating = False, toasts = []\<rparr>"

definition failed :: "ui \<Rightarrow> ui" where
  \<comment> \<open>The outer \<open>catch\<close>, then \<open>finally\<close>.\<close>
  "failed st = st\<lparr>toasts := toasts st @ [GenerationFailed], isGenerating := False\<rparr>"

definition generateRecipes :: "jsstring \<Rightarrow> jsstring \<Rightarrow> (jsstring \<Rightarrow> error + jsstring) \<Rightarrow> ui \<Rightarrow> ui" where
  \<comment> \<open>\<open>model\<close> is the text \<open>model.generateContent(prompt)\<close> answers with, or the error it
      throws.\<close>
  "generateRecipes dietType availableIngredients model st =
     (let st1 = st\<lparr>isGenerating := True\<rparr> in
      case model (prompt availableIngredients) of
        Inl e \<Rightarrow> failed st1
      | Inr text \<Rightarrow>
          (case JSON_parse (cleanText text) of
             None \<Rightarrow> st1\<lparr>toasts := toasts st1 @ [InvalidJSON], isGenerating := False\<rparr>
           | Some parsed \<Rightarrow>
               (case filteredRecipes dietType parsed of
                  Inl e \<Rightarrow> failed st1
                | Inr fr \<Rightarrow>
                    (let st2 = st1\<lparr>recipes := fr\<rparr> in
                     case length_of fr of
                       Inl e \<Rightarrow> failed st2
                     | Inr n \<Rightarrow>
                         if (case n of Value x \<Rightarrow> unprintable x | _ \<Rightarrow> False) then failed st2
                         else st2\<lparr>toasts := toasts st2 @ [RecipesGenerated n],
                                  isGenerating := False\<rparr>))))"

subsection \<open>The words of the specification\<close>

definition spec_tag_set :: "json \<Rightarrow> json set" where
  \<comment> \<open>The tag set of a recipe record: the elements of its array \<open>tags\<close>.\<close>
  "spec_tag_set r = (case tags_of r of Inr (Some (JArray ts)) \<Rightarrow> set ts | _ \<Rightarrow> {})"

definition spec_has_tag_array :: "json \<Rightarrow> bool" where
  \<comment> \<open>The record has an array-valued field \<open>tags\<close>.\<close>
  "spec_has_tag_array r = (case tags_of r of Inr (Some (JArray ts)) \<Rightarrow> True | _ \<Rightarrow> False)"

definition spec_has_tag_string :: "json \<Rightarrow> bool" where
  \<comment> \<open>The record has a string-valued field \<open>tags\<close>.\<close>
  "spec_has_tag_string r = (case tags_of r of Inr (Some (JString s)) \<Rightarrow> True | _ \<Rightarrow> False)"

fun distinct_names :: "json \<Rightarrow> bool" where
  \<comment> \<open>No object of the value, at any depth, has two members of one name.\<close>
  "distinct_names (JArray xs) = (\<forall>x \<in> set xs. distinct_names x)"
| "distinct_names (JObject ms) = (distinct (map fst ms) \<and> (\<forall>(k, v) \<in> set ms. distinct_names v))"
| "distinct_names _ = True"

subsection \<open>The code units held in strings\<close>

text \<open>
  The number of code units in the strings of a value, member names included, and the same
  count for the tokens of a text and for the states of the parser. The proofs measure by
  it what the removal of a fence takes away.
\<close>

fun token_weight :: "token \<Rightarrow> nat" where
  "token_weight (TString s) = length s"
| "token_weight _ = 0"

definition tokens_weight :: "token list \<Rightarrow> nat" where
  "tokens_weight ts = sum_list (map token_weight ts)"

fun weight :: "json \<Rightarrow> nat" where
  "weight (JString s) = length s"
| "weight (JArray xs) = sum_list (map weight xs)"
| "weight (JObject ms) = sum_list (map (\<lambda>(k, v). length k + weight v) ms)"
| "weight _ = 0"

fun frame_weight :: "frame \<Rightarrow> nat" where
  "frame_weight (FArr xs) = weight (JArray xs)"
| "frame_weight (FObj ms) = weight (JObject ms)"
| "frame_weight (FMem ms k) = weight (JObject ms) + length k"

fun state_weight :: "mode \<times> frame list \<Rightarrow> nat" where
  "state_weight (MDone v, st) = weight v + sum_list (map frame_weight st)"
| "state_weight (_, st) = sum_list (map frame_weight st)"

definition members_weight :: "(jsstring \<times> json) list \<Rightarrow> nat" where
  "members_weight ms = sum_list (map (\<lambda>(k, v). length k + weight v) ms)"

section \<open>Properties of the filter\<close>

lemma has_tag_arrayD:
  "spec_has_tag_array r \<Longrightarrow> \<exists>ts. tags_of r = Inr (Some (JArray ts))"
  unfolding spec_has_tag_array_def
  by (cases "tags_of r"; simp split: option.splits json.splits)

lemma keeps_tag_array:
  assumes "spec_has_tag_array r"
  shows "keeps r = Inr (JString (js ''Vegetarian'') \<in> spec_tag_set r \<or> JString (js ''Vegan'') \<in> spec_tag_set r)"
proof -
  from assms obtain ts where ts: "tags_of r = Inr (Some (JArray ts))"
    using has_tag_arrayD by blast
  show ?thesis
    by (simp add: keeps_def ts spec_tag_set_def js_includes_def split: bool.splits)
qed

lemma js_includes_fault:
  assumes "\<And>ts. t \<noteq> Some (JArray ts)" "\<And>s. t \<noteq> Some (JString s)"
  shows "js_includes t x = Inl TypeError"
proof (cases t)
  case None
  then show ?thesis by (simp add: js_includes_def)
next
  case (Some v)
  with assms show ?thesis by (cases v) (auto simp: js_includes_def)
qed

lemma keeps_fault:
  assumes "\<not> spec_has_tag_array r" "\<not> spec_has_tag_string r"
  shows "keeps r = Inl TypeError"
proof (cases "tags_of r")
  case (Inl e)
  then have "e = TypeError" by (cases e) (auto simp: tags_of_def split: json.splits)
  with Inl show ?thesis by (simp add: keeps_def)
next
  case (Inr t)
  have "js_includes t (js ''Vegetarian'') = Inl TypeError"
  proof (rule js_includes_fault)
    fix ts show "t \<noteq> Some (JArray ts)"
      using assms(1) Inr by (auto simp: spec_has_tag_array_def)
  next
    fix s show "t \<noteq> Some (JString s)"
      using assms(2) Inr by (auto simp: spec_has_tag_string_def)
  qed
  with Inr show ?thesis by (simp add: keeps_def)
qed

lemma js_includes_error: "js_includes t x = Inl e \<Longrightarrow> e = TypeError"
  unfolding js_includes_def
  by (cases t; simp) (simp split: json.splits)

lemma tags_of_error: "tags_of r = Inl e \<Longrightarrow> e = TypeError"
  unfolding tags_of_def by (cases r; simp)

lemma keeps_error: "keeps r = Inl e \<Longrightarrow> e = TypeError"
  unfolding keeps_def
  by (cases "tags_of r"; simp add: tags_of_error)
    (auto split: sum.splits bool.splits dest: js_includes_error)

lemma filter_array_Inr:
  assumes "\<forall>r \<in> set rs. p r = Inr (q r)"
  shows "filter_array p rs = Inr (filter q rs)"
  using assms by (induction rs) simp_all

lemma filter_array_Inl:
  assumes "r \<in> set rs" "p r = Inl e" "\<And>x e'. p x = Inl e' \<Longrightarrow> e' = e"
  shows "filter_array p rs = Inl e"
  using assms(1,2)
proof (induction rs)
  case Nil
  then show ?case by simp
next
  case (Cons a rs)
  show ?case
  proof (cases "p a")
    case (Inl e')
    with assms(3) show ?thesis by simp
  next
    case (Inr b)
    with Cons have "r \<in> set rs" by auto
    with Cons Inr show ?thesis by simp
  qed
qed

lemma filter_array_subseq:
  "filter_array p rs = Inr ys \<Longrightarrow> subseq ys rs"
proof (induction rs arbitrary: ys)
  case Nil
  then show ?case by simp
next
  case (Cons a rs)
  from Cons.prems obtain b zs where b: "p a = Inr b" and zs: "filter_array p rs = Inr zs"
    and ys: "ys = (if b then a # zs else zs)"
    by (auto split: sum.splits)
  from Cons.IH[OF zs] ys show ?case by auto
qed

section \<open>Properties of the removal of code fences\<close>

lemma FENCE_chars: "FENCE = [96, 96, 96]"
  by (simp add: FENCE_def js_def ch_def)

lemma FENCE_JSON_chars: "FENCE_JSON = [96, 96, 96, 106, 115, 111, 110]"
  by (simp add: FENCE_JSON_def js_def ch_def)

lemma FENCE_JSON_split: "FENCE_JSON = FENCE @ js ''json''"
  by (simp add: FENCE_def FENCE_JSON_def js_def)

lemma prefix_FENCE_JSON_D: "prefix FENCE_JSON xs \<Longrightarrow> prefix FENCE xs"
  unfolding FENCE_JSON_split by (rule append_prefixD)

lemma strip_fences_FENCE_JSON: "strip_fences (FENCE_JSON @ t) = strip_fences t"
  by (simp add: FENCE_JSON_chars)

lemma not_prefix_FENCE_JSON_append:
  assumes "\<not> prefix FENCE_JSON xs"
  shows "\<not> prefix FENCE_JSON (xs @ FENCE)"
proof
  assume "prefix FENCE_JSON (xs @ FENCE)"
  with assms obtain us where us: "FENCE_JSON = xs @ us" "prefix us FENCE"
    by (auto simp: prefix_append)
  with assms have ne: "us \<noteq> []" by auto
  from us(1) ne have "last us = 110" 
    by (metis FENCE_JSON_chars last_appendR last.simps list.distinct(1))
  moreover from us(2) ne have "last us \<in> set FENCE"
    by (meson last_in_set set_mono_prefix subsetD)
  ultimately show False by (simp add: FENCE_chars)
qed

lemma strip_fences_append_FENCE: "strip_fences (t @ FENCE) = strip_fences t"
proof (induction t rule: strip_fences.induct)
  case 1
  show ?case by (simp add: FENCE_chars FENCE_JSON_chars)
next
  case (2 c cs)
  show ?case
  proof (cases "prefix FENCE_JSON (c # cs)")
    case True
    then have len: "6 \<le> length cs"
      using prefix_length_le[of FENCE_JSON "c # cs"] by (simp add: FENCE_JSON_chars)
    from True have "prefix FENCE_JSON (c # (cs @ FENCE))"
      using prefix_prefix[of FENCE_JSON "c # cs" FENCE] by simp
    then have "strip_fences ((c # cs) @ FENCE) = strip_fences (drop 6 cs @ FENCE)"
      using len by simp
    with 2(1)[OF True] True show ?thesis by simp
  next
    case nj: False
    have nj': "\<not> prefix FENCE_JSON (c # (cs @ FENCE))"
      using not_prefix_FENCE_JSON_append[OF nj] by simp
    show ?thesis
    proof (cases "prefix FENCE (c # cs)")
      case True
      then have len: "2 \<le> length cs"
        using prefix_length_le[of FENCE "c # cs"] by (simp add: FENCE_chars)
      from True have "prefix FENCE (c # (cs @ FENCE))"
        using prefix_prefix[of FENCE "c # cs" FENCE] by simp
      then have "strip_fences ((c # cs) @ FENCE) = strip_fences (drop 2 cs @ FENCE)"
        using len nj' by simp
      with 2(2)[OF nj True] nj True show ?thesis by simp
    next
      case nf: False
      show ?thesis
      proof (cases "prefix FENCE (c # (cs @ FENCE))")
        case True
        with nf have "c # cs = [96] \<or> c # cs = [96, 96]"
          by (cases cs; cases "tl cs"; auto simp: FENCE_chars)
        then show ?thesis
          by (auto simp: FENCE_chars FENCE_JSON_chars)
      next
        case False
        with nj' nj nf 2(3)[OF nj nf] show ?thesis by simp
      qed
    qed
  qed
qed

lemma strip_fences_wrap: "strip_fences (FENCE_JSON @ t @ FENCE) = strip_fences t"
  by (simp only: strip_fences_FENCE_JSON strip_fences_append_FENCE)

lemma strip_fences_id: "\<not> sublist FENCE t \<Longrightarrow> strip_fences t = t"
proof (induction t)
  case Nil
  show ?case by simp
next
  case (Cons c cs)
  then have "\<not> prefix FENCE (c # cs)" "\<not> sublist FENCE cs"
    by (auto simp: sublist_Cons_right)
  moreover from this have "\<not> prefix FENCE_JSON (c # cs)"
    using prefix_FENCE_JSON_D by blast
  ultimately show ?case using Cons.IH by simp
qed

lemma strip_fences_hd:
  assumes "strip_fences t = 96 # r"
  shows "\<exists>t'. t = 96 # t'"
proof (cases t)
  case Nil
  with assms show ?thesis by simp
next
  case (Cons c cs)
  have "c = 96"
  proof (cases "prefix FENCE (c # cs)")
    case True
    then show ?thesis by (simp add: FENCE_chars)
  next
    case False
    then have "\<not> prefix FENCE_JSON (c # cs)" using prefix_FENCE_JSON_D by blast
    with False assms Cons show ?thesis by simp
  qed
  with Cons show ?thesis by simp
qed

lemma strip_fences_hd2:
  assumes "prefix [96, 96] (strip_fences t)"
  shows "prefix [96, 96] t"
proof (cases t)
  case Nil
  with assms show ?thesis by simp
next
  case (Cons c cs)
  show ?thesis
  proof (cases "prefix FENCE (c # cs)")
    case True
    then show ?thesis by (auto simp: FENCE_chars Cons prefix_def)
  next
    case False
    then have "\<not> prefix FENCE_JSON (c # cs)" using prefix_FENCE_JSON_D by blast
    with False have "strip_fences (c # cs) = c # strip_fences cs" by simp
    with assms Cons have "c = 96" "prefix [96] (strip_fences cs)" by simp_all
    then obtain r where "strip_fences cs = 96 # r"
      by (cases "strip_fences cs") auto
    then obtain t' where "cs = 96 # t'" using strip_fences_hd by blast
    with \<open>c = 96\<close> Cons show ?thesis by simp
  qed
qed

lemma strip_fences_no_fence: "\<not> sublist FENCE (strip_fences t)"
proof (induction t rule: strip_fences.induct)
  case 1
  show ?case by (simp add: FENCE_chars)
next
  case (2 c cs)
  show ?case
  proof (cases "prefix FENCE_JSON (c # cs)")
    case True
    with 2(1) show ?thesis by simp
  next
    case nj: False
    show ?thesis
    proof (cases "prefix FENCE (c # cs)")
      case True
      with nj 2(2) show ?thesis by simp
    next
      case nf: False
      have "\<not> prefix FENCE (c # strip_fences cs)"
      proof
        assume "prefix FENCE (c # strip_fences cs)"
        then have "c = 96" "prefix [96, 96] (strip_fences cs)" by (simp_all add: FENCE_chars)
        then have "prefix FENCE (c # cs)"
          using strip_fences_hd2 by (simp add: FENCE_chars)
        with nf show False by simp
      qed
      with nj nf 2(3) show ?thesis by (simp add: sublist_Cons_right)
    qed
  qed
qed

section \<open>Properties of the generator\<close>

lemma generateRecipes_array:
  assumes "model (prompt ing) = Inr raw"
    and "JSON_parse (cleanText raw) = Some parsed"
    and "filteredRecipes d parsed = Inr (JArray ys)"
  shows "generateRecipes d ing model st =
    st\<lparr>recipes := JArray ys, toasts := toasts st @ [RecipesGenerated (Number (length ys))],
       isGenerating := False\<rparr>"
  using assms by (simp add: generateRecipes_def length_of_def)

lemma generateRecipes_fault:
  assumes "model (prompt ing) = Inr raw"
    and "JSON_parse (cleanText raw) = Some parsed"
    and "filteredRecipes d parsed = Inl e"
  shows "generateRecipes d ing model st =
    st\<lparr>toasts := toasts st @ [GenerationFailed], isGenerating := False\<rparr>"
  using assms by (simp add: generateRecipes_def failed_def)

lemma filteredRecipes_restricted:
  assumes "d = js ''vegetarian'' \<or> d = js ''vegan''"
    and "\<forall>r \<in> set rs. spec_has_tag_array r"
  shows "filteredRecipes d (JArray rs) =
    Inr (JArray (filter (\<lambda>r. JString (js ''Vegetarian'') \<in> spec_tag_set r
                           \<or> JString (js ''Vegan'') \<in> spec_tag_set r) rs))"
proof -
  have "filter_array keeps rs =
    Inr (filter (\<lambda>r. JString (js ''Vegetarian'') \<in> spec_tag_set r
                           \<or> JString (js ''Vegan'') \<in> spec_tag_set r) rs)"
    by (rule filter_array_Inr) (use assms(2) keeps_tag_array in blast)
  with assms(1) show ?thesis by (auto simp: filteredRecipes_def)
qed


lemma filteredRecipes_empty: "filteredRecipes dietType (JArray []) = Inr (JArray [])"
  by (simp add: filteredRecipes_def)

section \<open>Fences and strings\<close>

lemma strip_fences_Cons_other:
  assumes "c \<noteq> 96"
  shows "strip_fences (c # cs) = c # strip_fences cs"
proof -
  from assms have "\<not> prefix FENCE (c # cs)" by (simp add: FENCE_chars)
  moreover from this have "\<not> prefix FENCE_JSON (c # cs)" using prefix_FENCE_JSON_D by blast
  ultimately show ?thesis by simp
qed

lemma strip_fences_append_plain:
  "96 \<notin> set p \<Longrightarrow> strip_fences (p @ r) = p @ strip_fences r"
  by (induction p) (simp_all add: strip_fences_Cons_other del: strip_fences.simps)

lemma string_body_bound:
  "string_body cs = Some (s, n) \<Longrightarrow> 0 < n \<and> n \<le> length cs"
proof (induction cs arbitrary: s n rule: string_body.induct)
  case 1
  then show ?case by simp
next
  case (2 c cs)
  show ?case
  proof (cases \<open>c = ch CHR ''"''\<close>)
    case True
    with 2(4) show ?thesis by simp
  next
    case nq: False
    show ?thesis
    proof (cases "c = ch CHR 0x5C")
      case True
      with nq 2(4) obtain e es where cs: "cs = e # es" by (cases cs) auto
      show ?thesis
      proof (cases "e = ch CHR ''u''")
        case eu: True
        with nq True cs 2(4) obtain u where u: "hex4 es = Some u"
          by (cases "hex4 es") auto
        with nq True cs eu 2(4) obtain s0 n0 where
          r: "string_body (drop 4 es) = Some (s0, n0)" "n = n0 + 6"
          by auto
        from 2(1)[OF nq True cs eu u r(1)] r(2) cs show ?thesis by auto
      next
        case neu: False
        with nq True cs 2(4) obtain x where x: "escape e = Some x"
          by (cases "escape e") auto
        with nq True cs neu 2(4) obtain s0 n0 where
          r: "string_body es = Some (s0, n0)" "n = n0 + 2"
          by auto
        from 2(2)[OF nq True cs neu x r(1)] r(2) cs show ?thesis by auto
      qed
    next
      case nb: False
      with nq 2(4) have ge: "\<not> c < 0x20" by (auto split: if_splits)
      with nq nb 2(4) obtain s0 n0 where
        r: "string_body cs = Some (s0, n0)" "n = n0 + 1"
        by auto
      from 2(3)[OF nq nb ge r(1)] r(2) show ?thesis by auto
    qed
  qed
qed


lemma hexval_not_backtick: "hexval c = Some v \<Longrightarrow> c \<noteq> 96"
  by (auto simp: hexval_def split: if_splits)

lemma hex4_Some:
  assumes "hex4 es = Some u"
  shows "\<exists>a b c d es'. es = a # b # c # d # es'
    \<and> a \<noteq> 96 \<and> b \<noteq> 96 \<and> c \<noteq> 96 \<and> d \<noteq> 96 \<and> (\<forall>r. hex4 (a # b # c # d # r) = Some u)"
proof -
  from assms obtain a b c d es' where es: "es = a # b # c # d # es'"
    by (cases es rule: hex4.cases) auto
  from assms es obtain x y z w where h: "hexval a = Some x" "hexval b = Some y"
    "hexval c = Some z" "hexval d = Some w"
    by (auto split: option.splits)
  with assms es have "\<forall>r. hex4 (a # b # c # d # r) = Some u" by simp
  with es h show ?thesis using hexval_not_backtick by blast
qed

lemma escape_not_backtick: "escape e = Some x \<Longrightarrow> e \<noteq> 96"
  by (auto simp: escape_def ch_def split: if_splits)

lemma string_body_plain:
  assumes \<open>c \<noteq> ch CHR ''"''\<close> "c \<noteq> ch CHR 0x5C" "\<not> c < 0x20"
  shows "string_body (c # cs) = map_option (\<lambda>(s, n). (c # s, n + 1)) (string_body cs)"
  using assms by simp

lemma string_body_FENCE:
  "string_body (FENCE @ r) = map_option (\<lambda>(s, n). (FENCE @ s, n + 3)) (string_body r)"
  by (cases "string_body r") (auto simp: FENCE_chars ch_def)

lemma string_body_FENCE_JSON:
  "string_body (FENCE_JSON @ r) = map_option (\<lambda>(s, n). (FENCE_JSON @ s, n + 7)) (string_body r)"
  by (cases "string_body r") (auto simp: FENCE_JSON_chars ch_def)

lemma drop_add_2: "drop (n + 2) (a # b # xs) = drop n xs"
  by (simp add: eval_nat_numeral)

lemma drop_add_6: "drop (n + 6) (a # b # c # d # e # f # xs) = drop n xs"
  by (simp add: eval_nat_numeral)

lemma string_body_strip_fences:
  "string_body cs = Some (s, n) \<Longrightarrow>
     \<exists>s' n'. string_body (strip_fences cs) = Some (s', n')
       \<and> drop n' (strip_fences cs) = strip_fences (drop n cs)
       \<and> length s' + n = length s + n'"
proof (induction cs arbitrary: s n rule: length_induct)
  case (1 cs)
  note IH = 1(1)[rule_format]
  note body = 1(2)
  from body obtain c r where cs: "cs = c # r" by (cases cs) auto
  show ?case
  proof (cases "prefix FENCE_JSON cs")
    case True
    then obtain r7 where r7: "cs = FENCE_JSON @ r7" by (auto simp: prefix_def)
    with body obtain s0 n0 where b0: "string_body r7 = Some (s0, n0)"
      and s: "s = FENCE_JSON @ s0" and n: "n = n0 + 7"
      by (auto simp: string_body_FENCE_JSON)
    have "length r7 < length cs" by (simp add: r7 FENCE_JSON_chars)
    from IH[OF this b0] obtain s' n' where
      "string_body (strip_fences r7) = Some (s', n')"
      "drop n' (strip_fences r7) = strip_fences (drop n0 r7)"
      "length s' + n0 = length s0 + n'" by blast
    moreover have "strip_fences cs = strip_fences r7"
      by (simp only: r7 strip_fences_FENCE_JSON)
    moreover have "length FENCE_JSON = 7" by (simp add: FENCE_JSON_chars)
    then have "drop n cs = drop n0 r7" by (simp add: r7 n)
    ultimately show ?thesis using s n by (auto simp: FENCE_JSON_chars)
  next
    case nj: False
    show ?thesis
    proof (cases "prefix FENCE cs")
      case True
      then obtain r3 where r3: "cs = FENCE @ r3" by (auto simp: prefix_def)
      with body obtain s0 n0 where b0: "string_body r3 = Some (s0, n0)"
        and s: "s = FENCE @ s0" and n: "n = n0 + 3"
        by (auto simp: string_body_FENCE)
      have "length r3 < length cs" by (simp add: r3 FENCE_chars)
      from IH[OF this b0] obtain s' n' where
        "string_body (strip_fences r3) = Some (s', n')"
        "drop n' (strip_fences r3) = strip_fences (drop n0 r3)"
        "length s' + n0 = length s0 + n'" by blast
      moreover from nj True cs have "strip_fences cs = strip_fences (drop 2 r)" by simp
      moreover from r3 cs have "drop 2 r = r3" by (auto simp: FENCE_chars)
      ultimately have "string_body (strip_fences cs) = Some (s', n')"
        "drop n' (strip_fences cs) = strip_fences (drop n0 r3)"
        "length s' + n0 = length s0 + n'" by simp_all
      moreover have "length FENCE = 3" by (simp add: FENCE_chars)
      then have "drop n cs = drop n0 r3" by (simp add: r3 n)
      ultimately show ?thesis using s n by (auto simp: FENCE_chars)
    next
      case nf: False
      with nj cs have st: "strip_fences cs = c # strip_fences r" by simp
      show ?thesis
      proof (cases \<open>c = ch CHR ''"''\<close>)
        case True
        with body cs have sn: "s = []" "n = 1" by simp_all
        show ?thesis unfolding st sn using True by (simp add: cs)
      next
        case nq: False
        show ?thesis
        proof (cases "c = ch CHR 0x5C")
          case True
          with nq body cs obtain e es where r: "r = e # es" by (cases r) auto
          show ?thesis
          proof (cases "e = ch CHR ''u''")
            case eu: True
            with nq True cs r body obtain u where u: "hex4 es = Some u"
              by (cases "hex4 es") auto
            with nq True cs r eu body obtain s0 n0 where
              b0: "string_body (drop 4 es) = Some (s0, n0)" and s: "s = u # s0" and n: "n = n0 + 6"
              by auto
            from u obtain a b c' d es' where es: "es = a # b # c' # d # es'"
              and nb: "a \<noteq> 96" "b \<noteq> 96" "c' \<noteq> 96" "d \<noteq> 96"
              and h: "\<forall>r. hex4 (a # b # c' # d # r) = Some u"
              using hex4_Some by blast
            have "length es' < length cs" by (simp add: cs r es)
            from IH[OF this] b0 es obtain s' n' where
              "string_body (strip_fences es') = Some (s', n')"
              "drop n' (strip_fences es') = strip_fences (drop n0 es')"
              "length s' + n0 = length s0 + n'" by auto
            then have "string_body (strip_fences es') = Some (s', n')
              \<and> drop n' (strip_fences es') = strip_fences (drop n0 es')
              \<and> length s' + n0 = length s0 + n'" by simp
            note sim = this
            have st': "strip_fences cs = c # e # a # b # c' # d # strip_fences es'"
              using st r es nb eu by (simp add: strip_fences_Cons_other ch_def del: strip_fences.simps)
            show ?thesis unfolding st' using sim s n nq True eu h by (simp add: cs r es drop_add_6)
          next
            case neu: False
            with nq True cs r body obtain x where x: "escape e = Some x"
              by (cases "escape e") auto
            with nq True cs r neu body obtain s0 n0 where
              b0: "string_body es = Some (s0, n0)" and s: "s = x # s0" and n: "n = n0 + 2"
              by auto
            have "length es < length cs" by (simp add: cs r)
            from IH[OF this b0] obtain s' n' where
              "string_body (strip_fences es) = Some (s', n')"
              "drop n' (strip_fences es) = strip_fences (drop n0 es)"
              "length s' + n0 = length s0 + n'" by blast
            then have sim: "string_body (strip_fences es) = Some (s', n')
              \<and> drop n' (strip_fences es) = strip_fences (drop n0 es)
              \<and> length s' + n0 = length s0 + n'" by simp
            have st': "strip_fences cs = c # e # strip_fences es"
              using st r escape_not_backtick[OF x]
              by (simp add: strip_fences_Cons_other del: strip_fences.simps)
            show ?thesis unfolding st' using sim s n nq True neu x by (simp add: cs r drop_add_2)
          qed
        next
          case nb: False
          with nq body cs have ge: "\<not> c < 0x20" by (auto split: if_splits)
          with nq nb body cs obtain s0 n0 where
            b0: "string_body r = Some (s0, n0)" and s: "s = c # s0" and n: "n = n0 + 1"
            by auto
          have "length r < length cs" by (simp add: cs)
          from IH[OF this b0] obtain s' n' where
            "string_body (strip_fences r) = Some (s', n')"
            "drop n' (strip_fences r) = strip_fences (drop n0 r)"
            "length s' + n0 = length s0 + n'" by blast
          then have sim: "string_body (strip_fences r) = Some (s', n')
            \<and> drop n' (strip_fences r) = strip_fences (drop n0 r)
            \<and> length s' + n0 = length s0 + n'" by simp
          show ?thesis unfolding st using sim s n nq nb ge by (simp add: cs)
        qed
      qed
    qed
  qed
qed

section \<open>Fences and tokens\<close>

lemma tokens_weight_simps [simp]:
  "tokens_weight [] = 0" "tokens_weight (t # ts) = token_weight t + tokens_weight ts"
  by (simp_all add: tokens_weight_def)

lemma punctuation_not_backtick: "punctuation c = Some t \<Longrightarrow> c \<noteq> 96"
  by (auto simp: punctuation_def ch_def split: if_splits)

lemma punctuation_weight: "punctuation c = Some t \<Longrightarrow> token_weight t = 0"
  by (auto simp: punctuation_def split: if_splits)

lemma is_number_char_not_backtick: "is_number_char c \<Longrightarrow> c \<noteq> 96"
  by (auto simp: is_number_char_def is_digit_def ch_def)

lemma number_length_Nil: "number_length [] = None"
  by (simp add: number_length_def digits_def)

lemma tokenize_backtick: "tokenize (96 # r) = None"
  by (simp add: is_json_ws_def punctuation_def ch_def js_def is_number_char_def is_digit_def
      number_length_Nil)

lemma tokenize_literal:
  "tokenize (js ''true'' @ r) = map_option ((#) TTrue) (tokenize r)"
  "tokenize (js ''false'' @ r) = map_option ((#) TFalse) (tokenize r)"
  "tokenize (js ''null'' @ r) = map_option ((#) TNull) (tokenize r)"
  by (simp_all add: is_json_ws_def punctuation_def ch_def js_def)

lemma literal_plain:
  "96 \<notin> set (js ''true'')" "96 \<notin> set (js ''false'')" "96 \<notin> set (js ''null'')"
  by (simp_all add: js_def ch_def)

lemma literal_length:
  "length (js ''true'') = 4" "length (js ''false'') = 5" "length (js ''null'') = 4"
  by (simp_all add: js_def)

lemma literal_not_number:
  "prefix (js ''true'') (c # cs) \<or> prefix (js ''false'') (c # cs) \<or> prefix (js ''null'') (c # cs)
    \<Longrightarrow> \<not> is_number_char c"
  by (auto simp: js_def ch_def is_number_char_def is_digit_def)

lemma tokenize_number:
  assumes "\<not> is_json_ws c" "punctuation c = None" \<open>c \<noteq> ch CHR ''"''\<close> "is_number_char c"
  shows "tokenize (c # cs) =
    (let l = takeWhile is_number_char (c # cs) in
     if number_length l = Some (length l)
     then map_option ((#) (TNumber l)) (tokenize (dropWhile is_number_char (c # cs)))
     else None)"
proof -
  have np: "\<not> prefix (js ''true'') (c # cs)" "\<not> prefix (js ''false'') (c # cs)"
    "\<not> prefix (js ''null'') (c # cs)"
    using literal_not_number assms(4) by blast+
  have "drop (length (takeWhile is_number_char cs)) cs = dropWhile is_number_char cs"
    by (simp add: dropWhile_eq_drop)
  with assms np show ?thesis by (simp add: Let_def)
qed


lemma tokenize_punctuation:
  "punctuation c = Some t \<Longrightarrow> tokenize (c # cs) = map_option ((#) t) (tokenize cs)"
  by (auto simp: punctuation_def is_json_ws_def ch_def split: if_splits)

lemma tokenize_quote:
  \<open>tokenize (ch CHR ''"'' # cs) =
    (case string_body cs of
       None \<Rightarrow> None
     | Some (s, n) \<Rightarrow> map_option ((#) (TString s)) (tokenize (drop n cs)))\<close>
  by (simp add: is_json_ws_def punctuation_def ch_def)

lemma tokenize_other:
  assumes "tokenize (c # cs) = Some toks" "\<not> is_json_ws c" "punctuation c = None"
    \<open>c \<noteq> ch CHR ''"''\<close> "\<not> prefix (js ''true'') (c # cs)"
    "\<not> prefix (js ''false'') (c # cs)" "\<not> prefix (js ''null'') (c # cs)"
  shows "is_number_char c"
proof (rule ccontr)
  assume "\<not> is_number_char c"
  then have "takeWhile is_number_char (c # cs) = []" by simp
  with assms show False by (simp add: number_length_Nil)
qed

lemma tokenize_strip_fences_literal:
  assumes "96 \<notin> set p" "0 < length p"
    and lexp: "\<And>r. tokenize (p @ r) = map_option ((#) tk) (tokenize r)"
    and "token_weight tk = 0"
    and t: "t = p @ r" and "tokenize t = Some toks"
    and IH: "\<And>toks0. tokenize r = Some toks0 \<Longrightarrow>
      \<exists>toks'. tokenize (strip_fences r) = Some toks'
        \<and> tokens_weight toks' + length r = tokens_weight toks0 + length (strip_fences r)"
  shows "\<exists>toks'. tokenize (strip_fences t) = Some toks'
        \<and> tokens_weight toks' + length t = tokens_weight toks + length (strip_fences t)"
proof -
  from assms(6) t lexp obtain toks0 where t0: "tokenize r = Some toks0" "toks = tk # toks0"
    by auto
  from IH[OF t0(1)] obtain toks' where t': "tokenize (strip_fences r) = Some toks'"
    "tokens_weight toks' + length r = tokens_weight toks0 + length (strip_fences r)" by blast
  have "strip_fences t = p @ strip_fences r"
    by (simp add: t strip_fences_append_plain[OF assms(1)])
  with t' t0 lexp assms(4) t show ?thesis by simp
qed

lemma tokenize_strip_fences:
  "tokenize t = Some toks \<Longrightarrow>
     \<exists>toks'. tokenize (strip_fences t) = Some toks'
       \<and> tokens_weight toks' + length t = tokens_weight toks + length (strip_fences t)"
proof (induction t arbitrary: toks rule: length_induct)
  case (1 t)
  note IH = 1(1)[rule_format]
  note lx = 1(2)
  show ?case
  proof (cases t)
    case Nil
    with lx show ?thesis by simp
  next
    case (Cons c cs)
    have c96: "c \<noteq> 96" using lx Cons tokenize_backtick by auto
    then have st: "strip_fences t = c # strip_fences cs"
      by (simp add: Cons strip_fences_Cons_other del: strip_fences.simps)
    have lcs: "length cs < length t" by (simp add: Cons)
    consider (ws) "is_json_ws c" | (punct) tk where "punctuation c = Some tk"
      | (quote) \<open>c = ch CHR ''"''\<close>
      | (true) "prefix (js ''true'') t" | (false) "prefix (js ''false'') t"
      | (null) "prefix (js ''null'') t"
      | (num) "\<not> is_json_ws c" "punctuation c = None" \<open>c \<noteq> ch CHR ''"''\<close>
          "\<not> prefix (js ''true'') t" "\<not> prefix (js ''false'') t" "\<not> prefix (js ''null'') t"
      by (cases "punctuation c") auto
    then show ?thesis
    proof cases
      case ws
      with lx Cons have "tokenize cs = Some toks" by simp
      from IH[OF lcs this] obtain toks' where "tokenize (strip_fences cs) = Some toks'"
        "tokens_weight toks' + length cs = tokens_weight toks + length (strip_fences cs)"
        by blast
      with ws show ?thesis unfolding st by (simp add: Cons)
    next
      case punct
      with lx Cons obtain toks0 where t0: "tokenize cs = Some toks0" "toks = tk # toks0"
        by (auto simp: tokenize_punctuation simp del: tokenize.simps)
      from IH[OF lcs t0(1)] obtain toks' where "tokenize (strip_fences cs) = Some toks'"
        "tokens_weight toks' + length cs = tokens_weight toks0 + length (strip_fences cs)"
        by blast
      with punct t0 show ?thesis unfolding st
        by (simp add: Cons tokenize_punctuation punctuation_weight del: tokenize.simps)
    next
      case quote
      with lx Cons obtain s n toks0 where b: "string_body cs = Some (s, n)"
        and t0: "tokenize (drop n cs) = Some toks0" "toks = TString s # toks0"
        by (auto simp: tokenize_quote simp del: tokenize.simps split: option.splits)
      from string_body_strip_fences[OF b] obtain s' n' where
        b': "string_body (strip_fences cs) = Some (s', n')"
        and d: "drop n' (strip_fences cs) = strip_fences (drop n cs)"
        and l: "length s' + n = length s + n'" by blast
      from string_body_bound[OF b] have n: "0 < n" "n \<le> length cs" by simp_all
      from string_body_bound[OF b'] have n': "n' \<le> length (strip_fences cs)" by simp
      have "length (drop n cs) < length t" using n by (simp add: Cons)
      from IH[OF this t0(1)] obtain toks' where t': "tokenize (strip_fences (drop n cs)) = Some toks'"
        "tokens_weight toks' + length (drop n cs)
           = tokens_weight toks0 + length (strip_fences (drop n cs))"
        by blast
      have "length (strip_fences (drop n cs)) = length (strip_fences cs) - n'"
        using d[symmetric] by simp
      with t'(2) n n' l have "length s' + tokens_weight toks' + length cs
        = length s + tokens_weight toks0 + length (strip_fences cs)"
        by simp
      with quote b' d t' t0 show ?thesis unfolding st
        by (simp add: Cons tokenize_quote del: tokenize.simps)
    next
      case true
      then obtain r where r: "t = js ''true'' @ r" by (auto simp: prefix_def)
      show ?thesis
      proof (rule tokenize_strip_fences_literal[OF literal_plain(1) _ tokenize_literal(1) _ r lx])
        fix toks0 assume "tokenize r = Some toks0"
        moreover have "length r < length t" by (simp add: r literal_length)
        ultimately show "\<exists>toks'. tokenize (strip_fences r) = Some toks'
          \<and> tokens_weight toks' + length r = tokens_weight toks0 + length (strip_fences r)"
          using IH by blast
      qed (simp_all add: literal_length)
    next
      case false
      then obtain r where r: "t = js ''false'' @ r" by (auto simp: prefix_def)
      show ?thesis
      proof (rule tokenize_strip_fences_literal[OF literal_plain(2) _ tokenize_literal(2) _ r lx])
        fix toks0 assume "tokenize r = Some toks0"
        moreover have "length r < length t" by (simp add: r literal_length)
        ultimately show "\<exists>toks'. tokenize (strip_fences r) = Some toks'
          \<and> tokens_weight toks' + length r = tokens_weight toks0 + length (strip_fences r)"
          using IH by blast
      qed (simp_all add: literal_length)
    next
      case null
      then obtain r where r: "t = js ''null'' @ r" by (auto simp: prefix_def)
      show ?thesis
      proof (rule tokenize_strip_fences_literal[OF literal_plain(3) _ tokenize_literal(3) _ r lx])
        fix toks0 assume "tokenize r = Some toks0"
        moreover have "length r < length t" by (simp add: r literal_length)
        ultimately show "\<exists>toks'. tokenize (strip_fences r) = Some toks'
          \<and> tokens_weight toks' + length r = tokens_weight toks0 + length (strip_fences r)"
          using IH by blast
      qed (simp_all add: literal_length)
    next
      case num
      with lx Cons have P: "is_number_char c" using tokenize_other by blast
      define l where "l = takeWhile is_number_char t"
      define rest where "rest = dropWhile is_number_char t"
      have t: "t = l @ rest" by (simp add: l_def rest_def)
      have lne: "l \<noteq> []" using P by (simp add: l_def Cons)
      from lx num(1-3) P obtain toks0 where nl: "number_length l = Some (length l)"
        and t0: "tokenize rest = Some toks0" "toks = TNumber l # toks0"
        unfolding Cons l_def rest_def
        by (auto simp: tokenize_number Let_def simp del: tokenize.simps split: if_splits)
      have "length rest < length t" using lne by (simp add: t)
      from IH[OF this t0(1)] obtain toks' where t': "tokenize (strip_fences rest) = Some toks'"
        "tokens_weight toks' + length rest = tokens_weight toks0 + length (strip_fences rest)"
        by blast
      have "96 \<notin> set l" using is_number_char_not_backtick
        by (auto simp: l_def dest: set_takeWhileD)
      then have st': "strip_fences t = l @ strip_fences rest"
        by (simp add: t strip_fences_append_plain)
      have hd: "strip_fences rest = [] \<or> \<not> is_number_char (hd (strip_fences rest))"
      proof (cases rest)
        case Nil
        then show ?thesis by simp
      next
        case (Cons x r')
        then have "\<not> is_number_char x"
          using hd_dropWhile[of is_number_char t] by (simp add: rest_def)
        moreover have "x \<noteq> 96" using t0(1) Cons tokenize_backtick by auto
        ultimately show ?thesis
          by (simp add: Cons strip_fences_Cons_other del: strip_fences.simps)
      qed
      have all: "\<forall>x \<in> set l. is_number_char x" by (auto simp: l_def dest: set_takeWhileD)
      from hd all have tw: "takeWhile is_number_char (l @ strip_fences rest) = l"
        by (cases "strip_fences rest") (simp_all add: takeWhile_append2)
      from hd all have dw: "dropWhile is_number_char (l @ strip_fences rest) = strip_fences rest"
        by (cases "strip_fences rest") (simp_all add: dropWhile_append2)
      have "tokenize (c # strip_fences cs) = Some (TNumber l # toks')"
        using tokenize_number[OF num(1-3) P, of "strip_fences cs"] st st' tw dw nl t'
        by (simp add: Let_def del: tokenize.simps)
      with st have lexst: "tokenize (strip_fences t) = Some (TNumber l # toks')"
        by (simp del: tokenize.simps)
      have len1: "length (strip_fences t) = length l + length (strip_fences rest)"
        using st' by simp
      have len2: "length t = length l + length rest"
        by (subst t) simp
      from lexst t'(2) t0(2) len1 len2 show ?thesis by (simp del: tokenize.simps)
    qed
  qed
qed

section \<open>Whitespace and tokens\<close>

lemma white_not_digit: "is_white c \<Longrightarrow> \<not> is_digit c"
  by (auto simp: is_white_def is_digit_def word_le_nat_alt)

lemma white_no_token:
  assumes "is_white c"
  shows "punctuation c = None" \<open>c \<noteq> ch CHR ''"''\<close> "c \<noteq> ch CHR 0x5C" "\<not> is_number_char c"
    "c \<notin> set (js ''true'')" "c \<notin> set (js ''false'')" "c \<notin> set (js ''null'')"
    "hexval c = None" "escape c = None" "c \<noteq> ch CHR ''u''"
proof -
  have r: "\<not> (0x2000 \<le> c \<and> c \<le> 0x200A) \<or> 0x2000 \<le> unat c" by (auto simp: word_le_nat_alt)
  from assms r show "punctuation c = None"
    by (auto simp: is_white_def punctuation_def ch_def)
  from assms r show \<open>c \<noteq> ch CHR ''"''\<close> "c \<noteq> ch CHR 0x5C" "c \<noteq> ch CHR ''u''"
    by (auto simp: is_white_def ch_def)
  from assms r white_not_digit[OF assms] show "\<not> is_number_char c"
    by (auto simp: is_white_def is_number_char_def ch_def)
  from assms r show "c \<notin> set (js ''true'')" "c \<notin> set (js ''false'')" "c \<notin> set (js ''null'')"
    by (auto simp: is_white_def js_def ch_def)
  from assms show "hexval c = None"
    by (auto simp: is_white_def hexval_def word_le_nat_alt)
  from assms r show "escape c = None"
    by (auto simp: is_white_def escape_def ch_def)
qed

lemma tokenize_white:
  assumes "is_white c" "\<not> is_json_ws c"
  shows "tokenize (c # r) = None"
proof -
  note w = white_no_token[OF assms(1)]
  have "\<not> prefix (js ''true'') (c # r)" "\<not> prefix (js ''false'') (c # r)"
    "\<not> prefix (js ''null'') (c # r)"
    using w(5-7) by (auto simp: js_def)
  with w assms(2) show ?thesis by (simp add: number_length_Nil)
qed

lemma string_body_snoc:
  "string_body (cs @ [w]) = Some (s, n) \<Longrightarrow> is_white w \<Longrightarrow> string_body cs = Some (s, n)"
proof (induction cs arbitrary: s n rule: string_body.induct)
  case 1
  note w = white_no_token[OF 1(2)]
  from 1(1) w show ?case by (auto split: if_splits)
next
  case (2 c cs)
  note w = white_no_token[OF 2(5)]
  show ?case
  proof (cases \<open>c = ch CHR ''"''\<close>)
    case True
    with 2(4) show ?thesis by simp
  next
    case nq: False
    show ?thesis
    proof (cases "c = ch CHR 0x5C")
      case True
      show ?thesis
      proof (cases cs)
        case Nil
        with nq True 2(4) w show ?thesis by simp
      next
        case (Cons e es)
        show ?thesis
        proof (cases "e = ch CHR ''u''")
          case eu: True
          with nq True Cons 2(4) obtain u s0 n0 where u: "hex4 (es @ [w]) = Some u"
            and b0: "string_body (drop 4 (es @ [w])) = Some (s0, n0)"
            and sn: "s = u # s0" "n = n0 + 6"
            by (auto split: option.splits)
          have len: "4 \<le> length es"
          proof (rule ccontr)
            assume "\<not> 4 \<le> length es"
            then have "drop 4 (es @ [w]) = []" by simp
            with b0 show False by simp
          qed
          then obtain a b c' d es' where es: "es = a # b # c' # d # es'"
            by (cases es rule: hex4.cases) auto
          with u have u': "hex4 es = Some u" by simp
          from b0 es have "string_body (drop 4 es @ [w]) = Some (s0, n0)" by simp
          from 2(1)[OF nq True Cons eu u' this 2(5)] have "string_body (drop 4 es) = Some (s0, n0)" .
          with nq True Cons eu u' sn show ?thesis by simp
        next
          case neu: False
          with nq True Cons 2(4) obtain x s0 n0 where x: "escape e = Some x"
            and b0: "string_body (es @ [w]) = Some (s0, n0)"
            and sn: "s = x # s0" "n = n0 + 2"
            by (auto split: option.splits)
          from 2(2)[OF nq True Cons neu x b0 2(5)] have "string_body es = Some (s0, n0)" .
          with nq True Cons neu x sn show ?thesis by simp
        qed
      qed
    next
      case nb: False
      with nq 2(4) have ge: "\<not> c < 0x20" by (auto split: if_splits)
      with nq nb 2(4) obtain s0 n0 where
        b0: "string_body (cs @ [w]) = Some (s0, n0)" and sn: "s = c # s0" "n = n0 + 1"
        by auto
      from 2(3)[OF nq nb ge b0 2(5)] have "string_body cs = Some (s0, n0)" .
      with nq nb ge sn show ?thesis by simp
    qed
  qed
qed

lemma prefix_snoc_other:
  assumes "prefix p (v @ [w])" "w \<notin> set p"
  shows "prefix p v"
proof (rule ccontr)
  assume np: "\<not> prefix p v"
  with assms(1) obtain us where us: "p = v @ us" "prefix us [w]"
    by (auto simp: prefix_append)
  with np have "us \<noteq> []" by auto
  with us(2) have "us = [w]" by (cases us) auto
  with us(1) assms(2) show False by simp
qed

lemma tokenize_snoc_literal:
  assumes "prefix p (v @ [w])" "w \<notin> set p"
    and lexp: "\<And>r. tokenize (p @ r) = map_option ((#) tk) (tokenize r)"
    and "tokenize (v @ [w]) = Some toks"
    and IH: "\<And>r toks0. v = p @ r \<Longrightarrow> tokenize (r @ [w]) = Some toks0 \<Longrightarrow> tokenize r = Some toks0"
  shows "tokenize v = Some toks"
proof -
  from prefix_snoc_other[OF assms(1,2)] obtain r where r: "v = p @ r" by (auto simp: prefix_def)
  with assms(4) lexp[of "r @ [w]"] obtain toks0 where
    t0: "tokenize (r @ [w]) = Some toks0" "toks = tk # toks0" by auto
  from IH[OF r t0(1)] lexp[of r] r t0(2) show ?thesis by simp
qed

lemma tokenize_snoc:
  "tokenize (v @ [w]) = Some toks \<Longrightarrow> is_white w \<Longrightarrow> tokenize v = Some toks"
proof (induction v arbitrary: toks rule: length_induct)
  case (1 v)
  note IH = 1(1)[rule_format]
  note lx = 1(2)
  note ww = 1(3)
  note w = white_no_token[OF ww]
  show ?case
  proof (cases v)
    case Nil
    show ?thesis
    proof (cases "is_json_ws w")
      case True
      with lx Nil show ?thesis by simp
    next
      case False
      with lx Nil tokenize_white[OF ww False, of "[]"] show ?thesis by simp
    qed
  next
    case (Cons c cs)
    have lcs: "length cs < length v" by (simp add: Cons)
    consider (ws) "is_json_ws c" | (punct) tk where "punctuation c = Some tk"
      | (quote) \<open>c = ch CHR ''"''\<close>
      | (true) "prefix (js ''true'') (v @ [w])" | (false) "prefix (js ''false'') (v @ [w])"
      | (null) "prefix (js ''null'') (v @ [w])"
      | (num) "\<not> is_json_ws c" "punctuation c = None" \<open>c \<noteq> ch CHR ''"''\<close>
          "\<not> prefix (js ''true'') (v @ [w])" "\<not> prefix (js ''false'') (v @ [w])"
          "\<not> prefix (js ''null'') (v @ [w])"
      by (cases "punctuation c") auto
    then show ?thesis
    proof cases
      case ws
      with lx Cons have "tokenize (cs @ [w]) = Some toks" by simp
      from IH[OF lcs this ww] ws show ?thesis by (simp add: Cons)
    next
      case punct
      with lx Cons obtain toks0 where t0: "tokenize (cs @ [w]) = Some toks0" "toks = tk # toks0"
        by (auto simp: tokenize_punctuation simp del: tokenize.simps)
      from IH[OF lcs t0(1) ww] punct t0(2) show ?thesis
        by (simp add: Cons tokenize_punctuation del: tokenize.simps)
    next
      case quote
      with lx Cons obtain s n toks0 where b: "string_body (cs @ [w]) = Some (s, n)"
        and t0: "tokenize (drop n (cs @ [w])) = Some toks0" "toks = TString s # toks0"
        by (auto simp: tokenize_quote simp del: tokenize.simps split: option.splits)
      from string_body_snoc[OF b ww] have b': "string_body cs = Some (s, n)" .
      from string_body_bound[OF b'] have n: "0 < n" "n \<le> length cs" by simp_all
      with t0(1) have "tokenize (drop n cs @ [w]) = Some toks0" by simp
      moreover have "length (drop n cs) < length v" using n by (simp add: Cons)
      ultimately have "tokenize (drop n cs) = Some toks0" using IH ww by blast
      with quote b' t0(2) show ?thesis by (simp add: Cons tokenize_quote del: tokenize.simps)
    next
      case true
      show ?thesis
      proof (rule tokenize_snoc_literal[OF true w(5) tokenize_literal(1) lx])
        fix r toks0 assume "v = js ''true'' @ r" "tokenize (r @ [w]) = Some toks0"
        moreover from this have "length r < length v" by (simp add: literal_length)
        ultimately show "tokenize r = Some toks0" using IH ww by blast
      qed
    next
      case false
      show ?thesis
      proof (rule tokenize_snoc_literal[OF false w(6) tokenize_literal(2) lx])
        fix r toks0 assume "v = js ''false'' @ r" "tokenize (r @ [w]) = Some toks0"
        moreover from this have "length r < length v" by (simp add: literal_length)
        ultimately show "tokenize r = Some toks0" using IH ww by blast
      qed
    next
      case null
      show ?thesis
      proof (rule tokenize_snoc_literal[OF null w(7) tokenize_literal(3) lx])
        fix r toks0 assume "v = js ''null'' @ r" "tokenize (r @ [w]) = Some toks0"
        moreover from this have "length r < length v" by (simp add: literal_length)
        ultimately show "tokenize r = Some toks0" using IH ww by blast
      qed
    next
      case num
      from num(4-6) have np: "\<not> prefix (js ''true'') (c # cs @ [w])"
        "\<not> prefix (js ''false'') (c # cs @ [w])" "\<not> prefix (js ''null'') (c # cs @ [w])"
        by (simp_all add: Cons)
      from lx have lx': "tokenize (c # cs @ [w]) = Some toks" by (simp add: Cons)
      from tokenize_other[OF lx' num(1-3) np] have P: "is_number_char c" .
      define l where "l = takeWhile is_number_char v"
      define rest where "rest = dropWhile is_number_char v"
      have tw: "takeWhile is_number_char (v @ [w]) = l"
        unfolding l_def using w(4) by (induction v) simp_all
      have dw: "dropWhile is_number_char (v @ [w]) = rest @ [w]"
        unfolding rest_def using w(4) by (induction v) simp_all
      have v: "c # cs @ [w] = v @ [w]" by (simp add: Cons)
      have "tokenize (v @ [w]) =
        (if number_length l = Some (length l)
         then map_option ((#) (TNumber l)) (tokenize (rest @ [w])) else None)"
        using tokenize_number[OF num(1-3) P, of "cs @ [w]"] unfolding v by (simp only: tw dw Let_def)
      with lx obtain toks0 where
        nl: "number_length l = Some (length l)"
        and t0: "tokenize (rest @ [w]) = Some toks0" "toks = TNumber l # toks0"
        by (auto simp del: tokenize.simps split: if_splits)
      have "length rest < length v"
        using P length_dropWhile_le[of is_number_char cs] by (simp add: rest_def Cons)
      from IH[OF this t0(1) ww] have r0: "tokenize rest = Some toks0" .
      have "tokenize v =
        (if number_length l = Some (length l)
         then map_option ((#) (TNumber l)) (tokenize rest) else None)"
        using tokenize_number[OF num(1-3) P, of cs] unfolding Cons[symmetric]
        by (simp only: l_def[symmetric] rest_def[symmetric] Let_def)
      with nl r0 t0(2) show ?thesis by (simp del: tokenize.simps)
    qed
  qed
qed

lemma tokenize_dropWhile_white:
  "tokenize u = Some toks \<Longrightarrow> tokenize (dropWhile is_white u) = Some toks"
proof (induction u)
  case Nil
  then show ?case by simp
next
  case (Cons c r)
  show ?case
  proof (cases "is_white c")
    case True
    have ws: "is_json_ws c"
    proof (rule ccontr)
      assume "\<not> is_json_ws c"
      from tokenize_white[OF True this, of r] Cons.prems show False
        by (simp del: tokenize.simps)
    qed
    with Cons.prems have "tokenize r = Some toks" by simp
    with Cons.IH True show ?thesis by simp
  next
    case False
    with Cons.prems show ?thesis by (simp del: tokenize.simps)
  qed
qed

lemma tokenize_drop_trailing_white:
  "tokenize v = Some toks \<Longrightarrow> tokenize (rev (dropWhile is_white (rev v))) = Some toks"
proof (induction v rule: rev_induct)
  case Nil
  then show ?case by simp
next
  case (snoc w v)
  show ?case
  proof (cases "is_white w")
    case True
    from tokenize_snoc[OF snoc.prems True] snoc.IH True show ?thesis by simp
  next
    case False
    with snoc.prems show ?thesis by simp
  qed
qed

lemma tokenize_trim: "tokenize u = Some toks \<Longrightarrow> tokenize (trim u) = Some toks"
  unfolding trim_def
  by (intro tokenize_drop_trailing_white tokenize_dropWhile_white)

lemma tokenize_cleanText:
  assumes "tokenize t = Some toks"
  shows "\<exists>toks'. tokenize (cleanText t) = Some toks'
       \<and> tokens_weight toks' + length t = tokens_weight toks + length (strip_fences t)"
  using tokenize_strip_fences[OF assms] tokenize_trim unfolding cleanText_def by blast

section \<open>The parser keeps the strings\<close>

lemma deliver_weight:
  "deliver v st = Some s' \<Longrightarrow> state_weight s' = weight v + sum_list (map frame_weight st)"
  by (induction v st rule: deliver.induct) auto

lemma scalar_weight: "scalar t = Some v \<Longrightarrow> weight v = token_weight t"
  by (cases t) auto

lemma scalar_None_weight: "scalar t = None \<Longrightarrow> token_weight t = 0"
  by (cases t) auto

lemma start_value_weight:
  "start_value t st = Some s' \<Longrightarrow> state_weight s' = token_weight t + sum_list (map frame_weight st)"
  by (cases t) (auto dest: deliver_weight)

lemma step_weight:
  "step s t = Some s' \<Longrightarrow> state_weight s' = state_weight s + token_weight t"
  by (induction s t rule: step.induct)
    (auto dest!: deliver_weight start_value_weight)

lemma run_weight:
  "run s ts = Some s' \<Longrightarrow> state_weight s' = state_weight s + tokens_weight ts"
proof (induction ts arbitrary: s)
  case Nil
  then show ?case by simp
next
  case (Cons t ts)
  then obtain s1 where s1: "step s t = Some s1" "run s1 ts = Some s'"
    by (auto split: option.splits)
  from Cons.IH[OF s1(2)] step_weight[OF s1(1)] show ?case by simp
qed

lemma finish_weight: "finish s = Some v \<Longrightarrow> weight v = state_weight s"
  by (induction s rule: finish.induct) auto

lemma JSON_tree_weight:
  assumes "JSON_tree t = Some T"
  shows "\<exists>toks. tokenize t = Some toks \<and> weight T = tokens_weight toks"
proof -
  from assms obtain toks s where "tokenize t = Some toks" "run (MValue, []) toks = Some s"
    "finish s = Some T"
    by (auto simp: JSON_tree_def split: option.splits)
  with run_weight[of "(MValue, [])" toks s] finish_weight[of s T] show ?thesis by simp
qed

lemma members_weight_Nil: "members_weight [] = 0"
  by (simp add: members_weight_def)

lemma define_property_weight:
  "members_weight (define_property acc (k, v)) \<le> members_weight acc + length k + weight v"
  by (induction acc "(k, v)" rule: define_property.induct) (auto simp: members_weight_def)

lemma foldl_define_property_weight:
  "members_weight (foldl define_property acc ms) \<le> members_weight acc + members_weight ms"
proof (induction ms arbitrary: acc)
  case Nil
  show ?case by (simp add: members_weight_def)
next
  case (Cons m ms)
  obtain k v where m: "m = (k, v)" by (cases m)
  have "members_weight (foldl define_property (define_property acc (k, v)) ms)
    \<le> members_weight (define_property acc (k, v)) + members_weight ms"
    by (rule Cons.IH)
  also have "\<dots> \<le> members_weight acc + length k + weight v + members_weight ms"
    using define_property_weight[of acc k v] by simp
  finally show ?case by (simp add: m members_weight_def)
qed

lemma object_value_weight: "weight (object_value T) \<le> weight T"
proof (induction T rule: object_value.induct)
  case (1 xs)
  then show ?case by (simp add: sum_list_mono o_def)
next
  case (2 ms)
  have "members_weight (foldl define_property [] (map (\<lambda>(k, v). (k, object_value v)) ms))
    \<le> members_weight (map (\<lambda>(k, v). (k, object_value v)) ms)"
    using foldl_define_property_weight[of "[]" "map (\<lambda>(k, v). (k, object_value v)) ms"]
      members_weight_Nil by simp
  also have "\<dots> \<le> members_weight ms"
    unfolding members_weight_def map_map
    by (rule sum_list_mono) (use 2 in \<open>auto simp: o_def\<close>)
  finally show ?case by (simp add: members_weight_def)
qed simp_all

lemma define_property_fresh:
  "k \<notin> fst ` set acc \<Longrightarrow> define_property acc (k, v) = acc @ [(k, v)]"
  by (induction acc "(k, v)" rule: define_property.induct) auto

lemma foldl_define_property_distinct:
  "distinct (map fst (acc @ ms)) \<Longrightarrow> foldl define_property acc ms = acc @ ms"
proof (induction ms arbitrary: acc)
  case Nil
  show ?case by simp
next
  case (Cons m ms)
  obtain k v where m: "m = (k, v)" by (cases m)
  from Cons.prems m have "k \<notin> fst ` set acc" by auto
  then have "define_property acc (k, v) = acc @ [(k, v)]" by (rule define_property_fresh)
  moreover from Cons.prems m have "distinct (map fst ((acc @ [(k, v)]) @ ms))" by simp
  ultimately show ?case using Cons.IH[of "acc @ [(k, v)]"] m by simp
qed

lemma object_value_distinct: "distinct_names T \<Longrightarrow> object_value T = T"
proof (induction T rule: object_value.induct)
  case (1 xs)
  then show ?case by (simp add: map_idI)
next
  case (2 ms)
  from 2 have "map (\<lambda>(k, v). (k, object_value v)) ms = ms"
    by (intro map_idI) auto
  moreover from 2(2) have "foldl define_property [] ms = [] @ ms"
    by (intro foldl_define_property_distinct) simp
  ultimately show ?case by simp
qed simp_all

lemma strip_fences_length:
  "length (strip_fences t) \<le> length t \<and> (length (strip_fences t) = length t \<longrightarrow> strip_fences t = t)"
  by (induction t rule: strip_fences.induct) auto

lemma fence_fixed_point: "sublist FENCE t \<Longrightarrow> length (strip_fences t) < length t"
  using strip_fences_length[of t] strip_fences_no_fence[of t]
  by (cases "strip_fences t = t") (auto simp: le_less)

lemma fence_changes_parsed_result:
  assumes "JSON_tree t = Some T" and "distinct_names T" and "sublist (js ''```'') t"
  shows "JSON_parse (cleanText t) \<noteq> JSON_parse t"
proof (cases "JSON_tree (cleanText t)")
  case None
  with assms(1) show ?thesis by (simp add: JSON_parse_def)
next
  case (Some T')
  from JSON_tree_weight[OF assms(1)] obtain toks where
    toks: "tokenize t = Some toks" "weight T = tokens_weight toks" by blast
  from JSON_tree_weight[OF Some] obtain toks' where
    toks': "tokenize (cleanText t) = Some toks'" "weight T' = tokens_weight toks'" by blast
  from tokenize_cleanText[OF toks(1)] toks'(1) have
    "tokens_weight toks' + length t = tokens_weight toks + length (strip_fences t)" by simp
  moreover from assms(3) have "length (strip_fences t) < length t"
    by (intro fence_fixed_point) (simp add: FENCE_def)
  ultimately have "weight T' < weight T" using toks(2) toks'(2) by simp
  with object_value_weight[of T'] object_value_distinct[OF assms(2)]
  have "weight (object_value T') < weight (object_value T)" by simp
  then have "object_value T' \<noteq> object_value T" by auto
  with assms(1) Some show ?thesis by (simp add: JSON_parse_def)
qed

lemma trim_sublist: "sublist (trim u) u"
proof -
  have "prefix (rev (dropWhile is_white (rev (dropWhile is_white u)))) (dropWhile is_white u)"
    by (metis suffix_dropWhile suffix_to_prefix rev_rev_ident)
  moreover have "suffix (dropWhile is_white u) u" by (rule suffix_dropWhile)
  ultimately show ?thesis
    unfolding trim_def
    by (meson prefix_imp_sublist suffix_imp_sublist sublist_order.order_trans)
qed

lemma strip_fences_subseq: "subseq (strip_fences t) t"
proof (induction t rule: strip_fences.induct)
  case 1
  show ?case by simp
next
  case (2 c cs)
  have d: "subseq (drop n cs) (c # cs)" for n
    by (metis list_emb_Cons suffix_drop suffix_imp_sublist sublist_imp_subseq)
  show ?case
  proof (cases "prefix FENCE_JSON (c # cs)")
    case True
    with 2(1) d[of 6] show ?thesis by (auto intro: subseq_order.order_trans)
  next
    case nj: False
    show ?thesis
    proof (cases "prefix FENCE (c # cs)")
      case True
      with nj 2(2) d[of 2] show ?thesis by (auto intro: subseq_order.order_trans)
    next
      case False
      with nj 2(3) show ?thesis by simp
    qed
  qed
qed

lemma trim_ends:
  assumes "trim u \<noteq> []"
  shows "\<not> is_white (hd (trim u))" "\<not> is_white (last (trim u))"
proof -
  define v where "v = dropWhile is_white u"
  have t: "trim u = rev (dropWhile is_white (rev v))" by (simp add: trim_def v_def)
  with assms have ne: "dropWhile is_white (rev v) \<noteq> []" by simp
  then have "\<not> is_white (hd (dropWhile is_white (rev v)))" by (rule hd_dropWhile)
  with ne show "\<not> is_white (last (trim u))" by (simp add: t last_rev)
  from ne have vne: "v \<noteq> []" by auto
  then have hv: "\<not> is_white (hd v)" unfolding v_def by (rule hd_dropWhile)
  have "prefix (trim u) v" unfolding t
    by (metis suffix_dropWhile suffix_to_prefix rev_rev_ident)
  with assms have "hd (trim u) = hd v" by (auto simp: prefix_def)
  with hv show "\<not> is_white (hd (trim u))" by simp
qed

section \<open>What the sanitizer deletes and what it keeps\<close>

text \<open>
  The first fence of a text is deleted, with the \<open>json\<close> behind it if there is one, and
  the text before it is kept; a text without a fence is only trimmed. The last lemma of
  the section shows that these equations determine the sanitizer.
\<close>

lemma strip_fences_skip:
  "\<not> sublist FENCE (a @ [96, 96]) \<Longrightarrow> strip_fences (a @ b) = a @ strip_fences b"
proof (induction a)
  case Nil
  show ?case by simp
next
  case (Cons c a)
  from Cons.prems have np: "\<not> prefix FENCE (c # a @ [96, 96])" and ns: "\<not> sublist FENCE (a @ [96, 96])"
    by (auto simp: sublist_Cons_right)
  have "\<not> prefix FENCE (c # a @ b)"
  proof
    assume "prefix FENCE (c # a @ b)"
    then have c: "c = 96" and p: "prefix [96, 96] (a @ b)" by (simp_all add: FENCE_chars)
    from p have "prefix [96, 96] (a @ [96, 96])"
      by (cases a; cases "tl a") (auto simp: prefix_def)
    with c have "prefix FENCE (c # a @ [96, 96])" by (simp add: FENCE_chars)
    with np show False by simp
  qed
  moreover from this have "\<not> prefix FENCE_JSON (c # a @ b)" using prefix_FENCE_JSON_D by blast
  ultimately show ?case using Cons.IH[OF ns] by simp
qed

lemma strip_fences_FENCE_other:
  "\<not> prefix (js ''json'') b \<Longrightarrow> strip_fences (FENCE @ b) = strip_fences b"
  by (simp add: FENCE_chars FENCE_JSON_chars js_def ch_def)

lemma cleanText_delete_FENCE_JSON:
  assumes "\<not> sublist FENCE (a @ [96, 96])"
  shows "cleanText (a @ FENCE_JSON @ b) = cleanText (a @ b)"
  using assms by (simp add: cleanText_def strip_fences_skip strip_fences_FENCE_JSON del: strip_fences.simps)

lemma cleanText_delete_FENCE:
  assumes "\<not> sublist FENCE (a @ [96, 96])" "\<not> prefix (js ''json'') b"
  shows "cleanText (a @ FENCE @ b) = cleanText (a @ b)"
  using assms by (simp add: cleanText_def strip_fences_skip strip_fences_FENCE_other del: strip_fences.simps)

lemma trim_exact:
  assumes "\<forall>c \<in> set l. is_white c" "\<forall>c \<in> set r. is_white c"
    and "m \<noteq> [] \<longrightarrow> \<not> is_white (hd m) \<and> \<not> is_white (last m)"
  shows "trim (l @ m @ r) = m"
proof (cases "m = []")
  case True
  with assms(1,2) have "\<forall>c \<in> set (l @ m @ r). is_white c" by auto
  then have d: "dropWhile is_white (l @ m @ r) = []" using dropWhile_eq_Nil_conv by blast
  show ?thesis unfolding trim_def d using True by simp
next
  case False
  with assms(3) have h: "\<not> is_white (hd m)" "\<not> is_white (last m)" by simp_all
  from assms(1) have "dropWhile is_white (l @ m @ r) = dropWhile is_white (m @ r)"
    by (intro dropWhile_append2) simp
  also from False h(1) have "\<dots> = m @ r" by (cases m) simp_all
  finally have d: "dropWhile is_white (l @ m @ r) = m @ r" .
  from assms(2) have "dropWhile is_white (rev r @ rev m) = dropWhile is_white (rev m)"
    by (intro dropWhile_append2) simp
  also from False h(2) have "\<dots> = rev m" by (cases "rev m") (auto simp: last_rev hd_rev)
  finally show ?thesis by (simp add: trim_def d)
qed

lemma cleanText_fence_free:
  assumes "\<not> sublist FENCE (l @ m @ r)"
    and "\<forall>c \<in> set l. is_white c" "\<forall>c \<in> set r. is_white c"
    and "m \<noteq> [] \<longrightarrow> \<not> is_white (hd m) \<and> \<not> is_white (last m)"
  shows "cleanText (l @ m @ r) = m"
  unfolding cleanText_def strip_fences_id[OF assms(1)] using assms(2-4) by (rule trim_exact)

lemma cleanText_no_fence: "\<not> sublist FENCE (cleanText t)"
proof
  assume "sublist FENCE (cleanText t)"
  then have "sublist FENCE (strip_fences t)"
    unfolding cleanText_def using trim_sublist sublist_order.order_trans by blast
  with strip_fences_no_fence show False by blast
qed

lemma leftmost_fence:
  "sublist FENCE t \<Longrightarrow> \<exists>a b. t = a @ FENCE @ b \<and> \<not> sublist FENCE (a @ [96, 96])"
proof (induction t)
  case Nil
  then show ?case by (simp add: FENCE_chars)
next
  case (Cons c cs)
  show ?case
  proof (cases "prefix FENCE (c # cs)")
    case True
    then obtain b where "c # cs = [] @ FENCE @ b" by (auto simp: prefix_def)
    moreover have "\<not> sublist FENCE ([] @ [96, 96])"
      by (auto simp: FENCE_chars sublist_Cons_right)
    ultimately show ?thesis by blast
  next
    case False
    with Cons.prems have "sublist FENCE cs" by (simp add: sublist_Cons_right)
    from Cons.IH[OF this] obtain a b where ab: "cs = a @ FENCE @ b"
      and n: "\<not> sublist FENCE (a @ [96, 96])" by blast
    have "\<not> prefix FENCE (c # a @ [96, 96])"
    proof
      assume "prefix FENCE (c # a @ [96, 96])"
      then have c: "c = 96" and p: "prefix [96, 96] (a @ [96, 96])" by (simp_all add: FENCE_chars)
      from p have "prefix [96, 96] (a @ FENCE @ b)"
        by (cases a; cases "tl a") (auto simp: prefix_def FENCE_chars)
      with c ab have "prefix FENCE (c # cs)" by (simp add: FENCE_chars)
      with False show False by simp
    qed
    with n have "\<not> sublist FENCE ((c # a) @ [96, 96])" by (simp add: sublist_Cons_right)
    moreover from ab have "c # cs = (c # a) @ FENCE @ b" by simp
    ultimately show ?thesis by blast
  qed
qed

lemma trim_decompose:
  "\<exists>l r. u = l @ trim u @ r \<and> (\<forall>c \<in> set l. is_white c) \<and> (\<forall>c \<in> set r. is_white c)"
proof -
  define v where "v = dropWhile is_white u"
  have u: "u = takeWhile is_white u @ v" by (simp add: v_def)
  have "rev v = takeWhile is_white (rev v) @ dropWhile is_white (rev v)" by simp
  then have "v = rev (dropWhile is_white (rev v)) @ rev (takeWhile is_white (rev v))"
    by (metis rev_append rev_rev_ident)
  then have v: "v = trim u @ rev (takeWhile is_white (rev v))" by (simp add: trim_def v_def)
  have "u = takeWhile is_white u @ trim u @ rev (takeWhile is_white (rev v))"
    using u v by metis
  moreover have "\<forall>c \<in> set (takeWhile is_white u). is_white c" by (auto dest: set_takeWhileD)
  moreover have "\<forall>c \<in> set (rev (takeWhile is_white (rev v))). is_white c"
    by (auto dest: set_takeWhileD)
  ultimately show ?thesis by blast
qed

lemma cleanText_determined:
  assumes free: "\<And>l m r. \<lbrakk>\<not> sublist FENCE (l @ m @ r); \<forall>c \<in> set l. is_white c;
      \<forall>c \<in> set r. is_white c; m \<noteq> [] \<longrightarrow> \<not> is_white (hd m) \<and> \<not> is_white (last m)\<rbrakk>
      \<Longrightarrow> f (l @ m @ r) = m"
    and fj: "\<And>a b. \<not> sublist FENCE (a @ [96, 96]) \<Longrightarrow> f (a @ FENCE_JSON @ b) = f (a @ b)"
    and fb: "\<And>a b. \<lbrakk>\<not> sublist FENCE (a @ [96, 96]); \<not> prefix (js ''json'') b\<rbrakk>
      \<Longrightarrow> f (a @ FENCE @ b) = f (a @ b)"
  shows "f t = cleanText t"
proof (induction t rule: length_induct)
  case (1 t)
  note IH = 1[rule_format]
  show ?case
  proof (cases "sublist FENCE t")
    case False
    from trim_decompose[of t] obtain l r where d: "t = l @ trim t @ r"
      and w: "\<forall>c \<in> set l. is_white c" "\<forall>c \<in> set r. is_white c" by blast
    have e: "trim t \<noteq> [] \<longrightarrow> \<not> is_white (hd (trim t)) \<and> \<not> is_white (last (trim t))"
      using trim_ends by blast
    from False d have "\<not> sublist FENCE (l @ trim t @ r)" by simp
    from free[OF this w e] d have "f t = trim t" by simp
    with False show ?thesis by (simp add: cleanText_def strip_fences_id)
  next
    case True
    from leftmost_fence[OF this] obtain a b where t: "t = a @ FENCE @ b"
      and n: "\<not> sublist FENCE (a @ [96, 96])" by blast
    show ?thesis
    proof (cases "prefix (js ''json'') b")
      case True
      then obtain b' where b: "b = js ''json'' @ b'" by (auto simp: prefix_def)
      with t have t': "t = a @ FENCE_JSON @ b'" by (simp add: FENCE_JSON_split)
      have "length (a @ b') < length t" by (simp add: t' FENCE_JSON_chars)
      from IH[OF this] fj[OF n, of b'] cleanText_delete_FENCE_JSON[OF n, of b'] t'
      show ?thesis by simp
    next
      case False
      have "length (a @ b) < length t" by (simp add: t FENCE_chars)
      from IH[OF this] fb[OF n False] cleanText_delete_FENCE[OF n False] t
      show ?thesis by simp
    qed
  qed
qed

lemma two_backticks: "js ''``'' = [96, 96]"
  by (simp add: js_def ch_def)

lemma fence_literals: "js ''```'' = FENCE" "js ''```json'' = FENCE_JSON"
  by (simp_all add: FENCE_def FENCE_JSON_def)

section \<open>The claims of the specification\<close>

subsection \<open>C1: what the filter retains under a restricted diet\<close>

text \<open>
  C1, as the specification states it, lets the vegan diet retain exactly the records
  whose tag set contains "Vegan". The program applies one and the same test to both
  restricted diets, so a record tagged only "Vegetarian" is retained under the vegan diet:
\<close>

theorem vegan_keeps_vegetarian_only:
  \<open>JSON_parse (cleanText (js ''[{"tags":["Vegetarian"]}]''))
     = Some (JArray [JObject [(js ''tags'', JArray [JString (js ''Vegetarian'')])]])
   \<and> JString (js ''Vegan'') \<notin> spec_tag_set (JObject [(js ''tags'', JArray [JString (js ''Vegetarian'')])])
   \<and> filteredRecipes (js ''vegan'') (JArray [JObject [(js ''tags'', JArray [JString (js ''Vegetarian'')])]])
     = Inr (JArray [JObject [(js ''tags'', JArray [JString (js ''Vegetarian'')])]])\<close>
  by code_simp

text \<open>
  C1, amended: when the diet type is vegan or vegetarian, the filter step retains, in their
  order, exactly those records of the parsed batch whose tag set contains "Vegetarian" or
  contains "Vegan", by exact and case-sensitive comparison of the tag strings.
\<close>

theorem restricted_diet_filter:
  assumes "dietType = js ''vegan'' \<or> dietType = js ''vegetarian''"
    and "\<forall>r \<in> set rs. spec_has_tag_array r"
  shows "filteredRecipes dietType (JArray rs) =
    Inr (JArray (filter (\<lambda>r. JString (js ''Vegetarian'') \<in> spec_tag_set r
                           \<or> JString (js ''Vegan'') \<in> spec_tag_set r) rs))"
  using assms filteredRecipes_restricted by blast


theorem restricted_diet_filter_witness:
  "filteredRecipes (js ''vegan'')
     (JArray [JObject [(js ''tags'', JArray [JString (js ''Vegetarian'')])],
              JObject [(js ''tags'', JArray [JString (js ''Meat'')])],
              JObject [(js ''tags'', JArray [JString (js ''Quick''), JString (js ''Vegan'')])]])
   = Inr (JArray [JObject [(js ''tags'', JArray [JString (js ''Vegetarian'')])],
                  JObject [(js ''tags'', JArray [JString (js ''Quick''), JString (js ''Vegan'')])]])"
  using restricted_diet_filter [of "js ''vegan''"
      "[JObject [(js ''tags'', JArray [JString (js ''Vegetarian'')])],
        JObject [(js ''tags'', JArray [JString (js ''Meat'')])],
        JObject [(js ''tags'', JArray [JString (js ''Quick''), JString (js ''Vegan'')])]]"]
  by (simp add: spec_has_tag_array_def spec_tag_set_def tags_of_def js_def ch_def)

subsection \<open>C2: the output under the vegetarian diet\<close>

text \<open>
  C2: for every successfully parsed batch of recipe records, when the diet type is
  "vegetarian" the recipe list the generator leaves holds exactly those records whose
  tag set includes "Vegetarian" or includes "Vegan" (case-sensitive). The witness is the
  example of the specification: of the two records tagged "Vegan" and "Meat", exactly the
  first one is kept.
\<close>

theorem vegetarian_output:
  assumes "model (prompt availableIngredients) = Inr text"
    and "JSON_parse (cleanText text) = Some (JArray rs)"
    and "\<forall>r \<in> set rs. spec_has_tag_array r"
  shows "recipes (generateRecipes (js ''vegetarian'') availableIngredients model st) =
    JArray (filter (\<lambda>r. JString (js ''Vegetarian'') \<in> spec_tag_set r
                        \<or> JString (js ''Vegan'') \<in> spec_tag_set r) rs)"
proof -
  have "filteredRecipes (js ''vegetarian'') (JArray rs) =
    Inr (JArray (filter (\<lambda>r. JString (js ''Vegetarian'') \<in> spec_tag_set r
                           \<or> JString (js ''Vegan'') \<in> spec_tag_set r) rs))"
    using assms(3) by (simp add: filteredRecipes_restricted)
  with assms(1,2) show ?thesis
    by (simp add: generateRecipes_array [where raw = "text" and parsed = "JArray rs"])
qed

theorem vegetarian_output_witness:
  \<open>recipes (generateRecipes (js ''vegetarian'') (js ''rice, beans'')
      (\<lambda>p. Inr (js ''[{"tags":["Vegan"]}, {"tags":["Meat"]}]'')) initial)
   = JArray [JObject [(js ''tags'', JArray [JString (js ''Vegan'')])]]\<close>
proof -
  have p: \<open>JSON_parse (cleanText (js ''[{"tags":["Vegan"]}, {"tags":["Meat"]}]''))
    = Some (JArray [JObject [(js ''tags'', JArray [JString (js ''Vegan'')])],
                    JObject [(js ''tags'', JArray [JString (js ''Meat'')])]])\<close>
    by code_simp
  have t: "\<forall>r \<in> set [JObject [(js ''tags'', JArray [JString (js ''Vegan'')])],
                    JObject [(js ''tags'', JArray [JString (js ''Meat'')])]]. spec_has_tag_array r"
    by (simp add: spec_has_tag_array_def tags_of_def)
  show ?thesis
    using vegetarian_output [where model = \<open>\<lambda>p. Inr (js ''[{"tags":["Vegan"]}, {"tags":["Meat"]}]'')\<close>
        and availableIngredients = "js ''rice, beans''" and st = initial, OF _ p t]
    by (simp add: spec_tag_set_def tags_of_def js_def ch_def)
qed

subsection \<open>C3: a response that is not JSON\<close>

text \<open>
  C3: for every response text whose sanitized form \<open>JSON.parse\<close> rejects, the generator
  reports the parse error (the toast "AI returned invalid JSON") and nothing else changes:
  the recipe list keeps its prior value. The witness is a response cut off in the middle
  of its second record.
\<close>

theorem invalid_json_keeps_recipes:
  assumes "model (prompt availableIngredients) = Inr text"
    and "JSON_parse (cleanText text) = None"
  shows "generateRecipes dietType availableIngredients model st =
           st\<lparr>toasts := toasts st @ [InvalidJSON], isGenerating := False\<rparr>
    \<and> recipes (generateRecipes dietType availableIngredients model st) = recipes st"
  using assms by (simp add: generateRecipes_def)

theorem invalid_json_keeps_recipes_witness:
  \<open>generateRecipes (js ''vegan'') (js ''rice'')
     (\<lambda>p. Inr (js ''[{"tags":["Vegan"]}, {"tags":["Me''))
     \<lparr>recipes = JArray [JObject [(js ''name'', JString (js ''Dal''))]], isGenerating = False, toasts = []\<rparr>
   = \<lparr>recipes = JArray [JObject [(js ''name'', JString (js ''Dal''))]], isGenerating = False,
      toasts = [InvalidJSON]\<rparr>\<close>
proof -
  have p: \<open>JSON_parse (cleanText (js ''[{"tags":["Vegan"]}, {"tags":["Me'')) = None\<close>
    by code_simp
  show ?thesis
    using invalid_json_keeps_recipes [where model = \<open>\<lambda>p. Inr (js ''[{"tags":["Vegan"]}, {"tags":["Me'')\<close>
        and availableIngredients = "js ''rice''" and dietType = "js ''vegan''"
        and st = "\<lparr>recipes = JArray [JObject [(js ''name'', JString (js ''Dal''))]],
                   isGenerating = False, toasts = []\<rparr>", OF _ p]
    by simp
qed

subsection \<open>C4: a response wrapped in a code fence\<close>

text \<open>
  C4 says that sanitization only removes enclosing fence markers. The replacement is
  global: a fence in the middle of the text, here inside a string, is deleted as well.
\<close>

theorem interior_fence_removed:
  \<open>cleanText (js ''["a```b"]'') = js ''["ab"]''
   \<and> \<not> prefix (js ''```'') (js ''["a```b"]'') \<and> \<not> suffix (js ''```'') (js ''["a```b"]'')\<close>
  by code_simp

text \<open>
  C4, amended: for every inner text \<open>t\<close>, the generator does the same on the response
  \<open>```json\<close> \<open>t\<close> \<open>```\<close> as on the response \<open>t\<close> (the same recipes and the same toast,
  or the same error outcome), because both have the same sanitized form; and a text that
  holds no fence marker passes through sanitization unchanged apart from the trimming of
  whitespace at its ends. Fence markers are removed wherever they are, enclosing or not:
  no fence is left in the sanitized text, and the first fence of a text, wherever it
  stands and with the \<open>json\<close> that follows it, can be deleted beforehand without changing
  the sanitized text.
\<close>

theorem fence_wrapping:
  "generateRecipes dietType availableIngredients (\<lambda>p. Inr (js ''```json'' @ t @ js ''```'')) st
     = generateRecipes dietType availableIngredients (\<lambda>p. Inr t) st
   \<and> cleanText (js ''```json'' @ t @ js ''```'') = cleanText t
   \<and> (\<not> sublist (js ''```'') t \<longrightarrow> cleanText t = trim t)
   \<and> \<not> sublist (js ''```'') (cleanText t)
   \<and> (\<not> sublist (js ''```'') (a @ js ''``'')
        \<longrightarrow> cleanText (a @ js ''```json'' @ b) = cleanText (a @ b))
   \<and> (\<not> sublist (js ''```'') (a @ js ''``'') \<and> \<not> prefix (js ''json'') b
        \<longrightarrow> cleanText (a @ js ''```'' @ b) = cleanText (a @ b))"
proof -
  have "cleanText (js ''```json'' @ t @ js ''```'') = cleanText t"
    using strip_fences_wrap [of t] by (simp add: cleanText_def FENCE_def FENCE_JSON_def)
  moreover have "\<not> sublist (js ''```'') t \<longrightarrow> cleanText t = trim t"
    using strip_fences_id [of t] by (simp add: cleanText_def FENCE_def)
  moreover have "\<not> sublist (js ''```'') (cleanText t)"
    using cleanText_no_fence [of t] by (simp add: FENCE_def)
  moreover have "\<not> sublist (js ''```'') (a @ js ''``'')
      \<longrightarrow> cleanText (a @ js ''```json'' @ b) = cleanText (a @ b)"
    unfolding fence_literals two_backticks using cleanText_delete_FENCE_JSON by blast
  moreover have "\<not> sublist (js ''```'') (a @ js ''``'') \<and> \<not> prefix (js ''json'') b
      \<longrightarrow> cleanText (a @ js ''```'' @ b) = cleanText (a @ b)"
    unfolding fence_literals two_backticks using cleanText_delete_FENCE by blast
  ultimately show ?thesis by (simp add: generateRecipes_def)
qed

theorem fence_wrapping_witness:
  \<open>\<not> sublist (js ''```'') (js '' [1, 2] '') \<and> cleanText (js '' [1, 2] '') = js ''[1, 2]''
   \<and> cleanText (js ''["a'' @ js ''```json'' @ js ''b"]'') = js ''["ab"]''
   \<and> cleanText (js ''["a'' @ js ''```'' @ js ''b"]'') = js ''["ab"]''\<close>
proof -
  have n: \<open>\<not> sublist (js ''```'') (js '' [1, 2] '')\<close> by code_simp
  have t: \<open>trim (js '' [1, 2] '') = js ''[1, 2]''\<close> by code_simp
  have l: \<open>\<not> sublist (js ''```'') (js ''["a'' @ js ''``'')\<close> by code_simp
  have j: \<open>\<not> prefix (js ''json'') (js ''b"]'')\<close> by code_simp
  have c: \<open>cleanText (js ''["a'' @ js ''b"]'') = js ''["ab"]''\<close> by code_simp
  from fence_wrapping [of "js ''vegan''" "[]" "js '' [1, 2] ''" initial
      \<open>js ''["a''\<close> \<open>js ''b"]''\<close>] n t l j c
  show ?thesis by simp
qed

subsection \<open>C5: the filter invents nothing\<close>

text \<open>
  C5: for every parsed batch and every diet type, what the filter step returns is a
  subsequence of the batch: every record of the output is one of the records of the
  input, unchanged and in the order of the input.
\<close>

theorem filtered_is_subsequence:
  assumes "filteredRecipes dietType (JArray rs) = Inr out"
  shows "\<exists>ys. out = JArray ys \<and> subseq ys rs \<and> set ys \<subseteq> set rs"
proof (cases "dietType = js ''vegetarian'' \<or> dietType = js ''vegan''")
  case True
  with assms obtain ys where ys: "filter_array keeps rs = Inr ys" "out = JArray ys"
    by (auto simp: filteredRecipes_def split: sum.splits)
  from filter_array_subseq[OF ys(1)] have "subseq ys rs" .
  moreover from this have "set ys \<subseteq> set rs"
    by (auto elim: list_emb_set)
  ultimately show ?thesis using ys(2) by simp
next
  case False
  with assms have "out = JArray rs" by (auto simp: filteredRecipes_def)
  then show ?thesis by auto
qed

theorem filtered_is_subsequence_witness:
  "subseq [JObject [(js ''tags'', JArray [JString (js ''Vegan'')])]]
          [JObject [(js ''tags'', JArray [JString (js ''Vegan'')])],
           JObject [(js ''tags'', JArray [JString (js ''Meat'')])]]
   \<and> filteredRecipes (js ''vegetarian'')
        (JArray [JObject [(js ''tags'', JArray [JString (js ''Vegan'')])],
                 JObject [(js ''tags'', JArray [JString (js ''Meat'')])]])
      = Inr (JArray [JObject [(js ''tags'', JArray [JString (js ''Vegan'')])]])"
proof -
  have f: "filteredRecipes (js ''vegetarian'')
        (JArray [JObject [(js ''tags'', JArray [JString (js ''Vegan'')])],
                 JObject [(js ''tags'', JArray [JString (js ''Meat'')])]])
      = Inr (JArray [JObject [(js ''tags'', JArray [JString (js ''Vegan'')])]])"
    by code_simp
  from filtered_is_subsequence [OF f] f show ?thesis by simp
qed

subsection \<open>C6: the prompt\<close>

text \<open>
  C6: for every ingredient string \<open>s\<close>, the prompt contains the text "no ingredients"
  when \<open>s\<close> is empty and contains \<open>s\<close> itself, as a contiguous part, when it is not.
  The prompt is a total function of \<open>s\<close> alone.
\<close>

theorem prompt_contains:
  "(s = [] \<longrightarrow> sublist (js ''no ingredients'') (prompt s))
   \<and> (s \<noteq> [] \<longrightarrow> sublist s (prompt s))"
  unfolding prompt_def by simp

theorem prompt_contains_witness:
  "sublist (js ''no ingredients'') (prompt [])
   \<and> sublist (js ''rice, beans'') (prompt (js ''rice, beans''))"
proof -
  have "js ''rice, beans'' \<noteq> []" by (simp add: js_def)
  with prompt_contains [of "[]"] prompt_contains [of "js ''rice, beans''"]
  show ?thesis by simp
qed

subsection \<open>C7: an unrestricted diet\<close>

text \<open>
  C7: for every successfully parsed batch, when the diet type is neither "vegetarian" nor
  "vegan" (for instance "omnivore"), the filter step returns the whole batch and the
  generator stores all of it. The witness is the two-record example, which yields both
  records.
\<close>

theorem unrestricted_diet_keeps_all:
  assumes "dietType \<noteq> js ''vegetarian''" and "dietType \<noteq> js ''vegan''"
    and "model (prompt availableIngredients) = Inr text"
    and "JSON_parse (cleanText text) = Some (JArray rs)"
  shows "filteredRecipes dietType (JArray rs) = Inr (JArray rs)
    \<and> generateRecipes dietType availableIngredients model st =
        st\<lparr>recipes := JArray rs, toasts := toasts st @ [RecipesGenerated (Number (length rs))],
           isGenerating := False\<rparr>"
proof -
  from assms(1,2) have f: "filteredRecipes dietType (JArray rs) = Inr (JArray rs)"
    by (simp add: filteredRecipes_def)
  with assms(3,4) show ?thesis
    by (simp add: generateRecipes_array [where raw = "text" and parsed = "JArray rs"])
qed

theorem unrestricted_diet_keeps_all_witness:
  \<open>generateRecipes (js ''omnivore'') (js ''rice'')
     (\<lambda>p. Inr (js ''[{"tags":["Vegan"]}, {"tags":["Meat"]}]'')) initial
   = \<lparr>recipes = JArray [JObject [(js ''tags'', JArray [JString (js ''Vegan'')])],
                         JObject [(js ''tags'', JArray [JString (js ''Meat'')])]],
      isGenerating = False, toasts = [RecipesGenerated (Number 2)]\<rparr>\<close>
proof -
  have p: \<open>JSON_parse (cleanText (js ''[{"tags":["Vegan"]}, {"tags":["Meat"]}]''))
    = Some (JArray [JObject [(js ''tags'', JArray [JString (js ''Vegan'')])],
                    JObject [(js ''tags'', JArray [JString (js ''Meat'')])]])\<close>
    by code_simp
  have d: "js ''omnivore'' \<noteq> js ''vegetarian''" "js ''omnivore'' \<noteq> js ''vegan''"
    by (simp_all add: js_def)
  show ?thesis
    using unrestricted_diet_keeps_all [where model = \<open>\<lambda>p. Inr (js ''[{"tags":["Vegan"]}, {"tags":["Meat"]}]'')\<close>
        and availableIngredients = "js ''rice''" and st = initial, OF d _ p]
    by (simp add: initial_def)
qed

subsection \<open>C8: the empty array\<close>

text \<open>
  C8: the response \<open>[]\<close>, bare or wrapped in a fence, parses; for every diet type the
  generator stores the empty list and announces zero recipes, which is not the outcome
  of a parse error.
\<close>

theorem empty_array_is_success:
  \<open>JSON_parse (cleanText (js ''[]'')) = Some (JArray [])
   \<and> generateRecipes dietType availableIngredients (\<lambda>p. Inr (js ''[]'')) st
       = st\<lparr>recipes := JArray [], toasts := toasts st @ [RecipesGenerated (Number 0)],
            isGenerating := False\<rparr>
   \<and> generateRecipes dietType availableIngredients
         (\<lambda>p. Inr (js ''```json\<newline>[]\<newline>```'')) st
       = st\<lparr>recipes := JArray [], toasts := toasts st @ [RecipesGenerated (Number 0)],
            isGenerating := False\<rparr>
   \<and> RecipesGenerated (Number 0) \<noteq> InvalidJSON\<close>
proof -
  have p1: \<open>JSON_parse (cleanText (js ''[]'')) = Some (JArray [])\<close>
    by code_simp
  have p2: \<open>JSON_parse (cleanText (js ''```json\<newline>[]\<newline>```'')) = Some (JArray [])\<close>
    by code_simp
  show ?thesis
    using p1 p2 filteredRecipes_empty [of dietType]
    by (simp add: generateRecipes_def length_of_def)
qed

subsection \<open>C9: fences inside the JSON text\<close>

text \<open>
  C9 concludes that every otherwise-valid JSON input with a fence inside a string value
  parses, once sanitized, to a result other than that of the original text. An object may
  repeat a member name, and then the last member wins: a fence in a value that a later
  member of the same name overrides leaves no trace in the result. And not every
  occurrence of \<open>```json\<close> is deleted as such: the search runs from left to right, so of
  four backticks before \<open>json\<close> the first three are deleted and \<open>json\<close> stays.
\<close>

theorem duplicate_name_hides_fence:
  \<open>sublist (js ''```'') (js ''{"a":"```","a":1}'')
   \<and> JSON_parse (js ''{"a":"```","a":1}'') = Some (JObject [(js ''a'', JNumber (js ''1''))])
   \<and> JSON_parse (cleanText (js ''{"a":"```","a":1}'')) = JSON_parse (js ''{"a":"```","a":1}'')
   \<and> sublist (js ''```json'') (js ''````json'')
   \<and> cleanText (js ''````json'') = js ''`json''\<close>
  by code_simp

text \<open>
  C9, amended: the sanitization step searches the response from left to right and, wherever
  a fence \<open>```\<close> starts (not only at the ends of the text), deletes \<open>```json\<close> if
  \<open>json\<close> follows and \<open>```\<close> otherwise, and goes on behind what it deleted; the text
  before the first fence is kept as it is, and a text without a fence is kept whole. Then
  the surrounding whitespace is trimmed. So the sanitized text is the response with code
  units left out, holds no fence, and neither starts nor ends with whitespace.
  Consequently, for any otherwise-valid JSON input that contains a backtick fence (in valid
  JSON it can only be inside a string) and in which no object repeats a member name, the
  parsed result differs from what parsing the original text would give.

  In the theorem, \<open>a\<close> is a text in which no fence starts, also not with the help of the
  two backticks that follow it; \<open>l\<close> and \<open>r\<close> are the whitespace around \<open>m\<close>. Its first
  three parts hold of no function but the sanitizer (lemma \<open>cleanText_determined\<close>).
\<close>

theorem sanitize_deletes_every_fence:
  "(\<not> sublist (js ''```'') (a @ js ''``'')
      \<longrightarrow> cleanText (a @ js ''```json'' @ b) = cleanText (a @ b))
   \<and> (\<not> sublist (js ''```'') (a @ js ''``'') \<and> \<not> prefix (js ''json'') b
      \<longrightarrow> cleanText (a @ js ''```'' @ b) = cleanText (a @ b))
   \<and> (\<not> sublist (js ''```'') (l @ m @ r)
        \<and> (\<forall>c \<in> set l. is_white c) \<and> (\<forall>c \<in> set r. is_white c)
        \<and> (m \<noteq> [] \<longrightarrow> \<not> is_white (hd m) \<and> \<not> is_white (last m))
      \<longrightarrow> cleanText (l @ m @ r) = m)
   \<and> subseq (cleanText t) t
   \<and> \<not> sublist (js ''```'') (cleanText t)
   \<and> (cleanText t \<noteq> [] \<longrightarrow> \<not> is_white (hd (cleanText t)) \<and> \<not> is_white (last (cleanText t)))
   \<and> (JSON_tree t = Some T \<and> distinct_names T \<and> sublist (js ''```'') t
        \<longrightarrow> JSON_parse (cleanText t) \<noteq> JSON_parse t)"
proof (intro conjI impI)
  assume "\<not> sublist (js ''```'') (a @ js ''``'')"
  then show "cleanText (a @ js ''```json'' @ b) = cleanText (a @ b)"
    unfolding fence_literals two_backticks by (rule cleanText_delete_FENCE_JSON)
next
  assume "\<not> sublist (js ''```'') (a @ js ''``'') \<and> \<not> prefix (js ''json'') b"
  then show "cleanText (a @ js ''```'' @ b) = cleanText (a @ b)"
    unfolding fence_literals two_backticks using cleanText_delete_FENCE by blast
next
  assume "\<not> sublist (js ''```'') (l @ m @ r)
        \<and> (\<forall>c \<in> set l. is_white c) \<and> (\<forall>c \<in> set r. is_white c)
        \<and> (m \<noteq> [] \<longrightarrow> \<not> is_white (hd m) \<and> \<not> is_white (last m))"
  then show "cleanText (l @ m @ r) = m"
    unfolding fence_literals using cleanText_fence_free by blast
next
  have "subseq (cleanText t) (strip_fences t)"
    unfolding cleanText_def using trim_sublist by (rule sublist_imp_subseq)
  then show "subseq (cleanText t) t"
    using strip_fences_subseq subseq_order.order_trans by blast
next
  show "\<not> sublist (js ''```'') (cleanText t)"
    using cleanText_no_fence [of t] by (simp add: FENCE_def)
next
  assume "cleanText t \<noteq> []"
  then show "\<not> is_white (hd (cleanText t))" "\<not> is_white (last (cleanText t))"
    unfolding cleanText_def by (rule trim_ends)+
next
  assume "JSON_tree t = Some T \<and> distinct_names T \<and> sublist (js ''```'') t"
  then show "JSON_parse (cleanText t) \<noteq> JSON_parse t"
    using fence_changes_parsed_result by blast
qed

theorem sanitize_deletes_every_fence_witness:
  \<open>JSON_parse (cleanText (js ''["a```b", {"n":1}]'')) \<noteq> JSON_parse (js ''["a```b", {"n":1}]'')
   \<and> \<not> is_white (hd (cleanText (js ''["a```b", {"n":1}]'')))
   \<and> \<not> is_white (last (cleanText (js ''["a```b", {"n":1}]'')))
   \<and> cleanText (js ''["x'' @ js ''```json'' @ js ''``y"] '') = js ''["x``y"]''
   \<and> cleanText (js ''["x'' @ js ''```'' @ js ''`json"] '') = js ''["x`json"]''
   \<and> cleanText (js ''  '' @ js ''[1, 2]'' @ js ''\<newline> '') = js ''[1, 2]''\<close>
proof -
  have p: \<open>JSON_tree (js ''["a```b", {"n":1}]'')
    = Some (JArray [JString (js ''a```b''), JObject [(js ''n'', JNumber (js ''1''))]])\<close>
    by code_simp
  have d: "distinct_names (JArray [JString (js ''a```b''), JObject [(js ''n'', JNumber (js ''1''))]])"
    by simp
  have s: \<open>sublist (js ''```'') (js ''["a```b", {"n":1}]'')\<close>
    by code_simp
  have n: \<open>cleanText (js ''["a```b", {"n":1}]'') \<noteq> []\<close>
    by code_simp
  have t1: \<open>JSON_parse (cleanText (js ''["a```b", {"n":1}]'')) \<noteq> JSON_parse (js ''["a```b", {"n":1}]'')
   \<and> \<not> is_white (hd (cleanText (js ''["a```b", {"n":1}]'')))
   \<and> \<not> is_white (last (cleanText (js ''["a```b", {"n":1}]'')))\<close>
    using sanitize_deletes_every_fence [where t = \<open>js ''["a```b", {"n":1}]''\<close>
      and T = "JArray [JString (js ''a```b''), JObject [(js ''n'', JNumber (js ''1''))]]"] p d s n
    by simp
  have l1: \<open>\<not> sublist (js ''```'') (js ''["x'' @ js ''``'')\<close> by code_simp
  have c1: \<open>cleanText (js ''["x'' @ js ''``y"] '') = js ''["x``y"]''\<close> by code_simp
  have t2: \<open>cleanText (js ''["x'' @ js ''```json'' @ js ''``y"] '') = js ''["x``y"]''\<close>
    using sanitize_deletes_every_fence [where a = \<open>js ''["x''\<close> and b = \<open>js ''``y"] ''\<close>] l1 c1
    by simp
  have j3: \<open>\<not> prefix (js ''json'') (js ''`json"] '')\<close> by code_simp
  have c3: \<open>cleanText (js ''["x'' @ js ''`json"] '') = js ''["x`json"]''\<close> by code_simp
  have t3: \<open>cleanText (js ''["x'' @ js ''```'' @ js ''`json"] '') = js ''["x`json"]''\<close>
    using sanitize_deletes_every_fence [where a = \<open>js ''["x''\<close> and b = \<open>js ''`json"] ''\<close>] l1 j3 c3
    by simp
  have f4: \<open>\<not> sublist (js ''```'') (js ''  '' @ js ''[1, 2]'' @ js ''\<newline> '')\<close> by code_simp
  have w4: \<open>(\<forall>c \<in> set (js ''  ''). is_white c) \<and> (\<forall>c \<in> set (js ''\<newline> ''). is_white c)\<close>
    by code_simp
  have e4: \<open>\<not> is_white (hd (js ''[1, 2]'')) \<and> \<not> is_white (last (js ''[1, 2]''))\<close>
    by code_simp
  have t4: \<open>cleanText (js ''  '' @ js ''[1, 2]'' @ js ''\<newline> '') = js ''[1, 2]''\<close>
    using sanitize_deletes_every_fence [where l = \<open>js ''  ''\<close> and m = \<open>js ''[1, 2]''\<close>
        and r = \<open>js ''\<newline> ''\<close>] f4 w4 e4
    by simp
  from t1 t2 t3 t4 show ?thesis by simp
qed

subsection \<open>C10: records without tags\<close>

text \<open>
  C10 lets the filter fault as soon as an element lacks an array-valued \<open>tags\<close>. A
  string has the method \<open>includes\<close> too, so a record whose \<open>tags\<close> is a string is
  tested without a fault, by substring search, and may be kept:
\<close>

theorem string_tags_do_not_fault:
  \<open>JSON_parse (cleanText (js ''[{"tags":"Vegan"}]''))
     = Some (JArray [JObject [(js ''tags'', JString (js ''Vegan''))]])
   \<and> \<not> spec_has_tag_array (JObject [(js ''tags'', JString (js ''Vegan''))])
   \<and> filteredRecipes (js ''vegan'') (JArray [JObject [(js ''tags'', JString (js ''Vegan''))]])
     = Inr (JArray [JObject [(js ''tags'', JString (js ''Vegan''))]])
   \<and> generateRecipes (js ''vegan'') (js ''rice'') (\<lambda>p. Inr (js ''[{"tags":"Vegan"}]'')) initial
     = \<lparr>recipes = JArray [JObject [(js ''tags'', JString (js ''Vegan''))]],
        isGenerating = False, toasts = [RecipesGenerated (Number 1)]\<rparr>\<close>
  by code_simp

text \<open>
  C10, amended: if the diet type is vegetarian or vegan and some element of the
  successfully parsed array has a \<open>tags\<close> that is neither an array nor a string (or has
  none, or is \<open>null\<close>), the filter step faults with a TypeError; the surrounding handler
  catches it, the generator ends with the toast "Failed to generate recipes" and the
  recipe list keeps its prior value.
\<close>

theorem untagged_record_faults:
  assumes "dietType = js ''vegetarian'' \<or> dietType = js ''vegan''"
    and "model (prompt availableIngredients) = Inr text"
    and "JSON_parse (cleanText text) = Some (JArray rs)"
    and "\<exists>r \<in> set rs. \<not> spec_has_tag_array r \<and> \<not> spec_has_tag_string r"
  shows "filteredRecipes dietType (JArray rs) = Inl TypeError
    \<and> generateRecipes dietType availableIngredients model st =
        st\<lparr>toasts := toasts st @ [GenerationFailed], isGenerating := False\<rparr>
    \<and> recipes (generateRecipes dietType availableIngredients model st) = recipes st"
proof -
  from assms(4) obtain r where r: "r \<in> set rs" "keeps r = Inl TypeError"
    using keeps_fault by blast
  have "filter_array keeps rs = Inl TypeError"
    using r keeps_error by (rule filter_array_Inl)
  with assms(1) have f: "filteredRecipes dietType (JArray rs) = Inl TypeError"
    by (auto simp: filteredRecipes_def)
  with assms(2,3) show ?thesis
    by (simp add: generateRecipes_fault [where raw = "text" and parsed = "JArray rs" and e = TypeError])
qed

theorem untagged_record_faults_witness:
  \<open>generateRecipes (js ''vegan'') (js ''rice'')
     (\<lambda>p. Inr (js ''[{"tags":["Vegan"]}, {"name":"Dal"}]''))
     \<lparr>recipes = JArray [JNull], isGenerating = False, toasts = []\<rparr>
   = \<lparr>recipes = JArray [JNull], isGenerating = False, toasts = [GenerationFailed]\<rparr>\<close>
proof -
  have p: \<open>JSON_parse (cleanText (js ''[{"tags":["Vegan"]}, {"name":"Dal"}]''))
    = Some (JArray [JObject [(js ''tags'', JArray [JString (js ''Vegan'')])],
                    JObject [(js ''name'', JString (js ''Dal''))]])\<close>
    by code_simp
  have u: "\<exists>r \<in> set [JObject [(js ''tags'', JArray [JString (js ''Vegan'')])],
                    JObject [(js ''name'', JString (js ''Dal''))]].
             \<not> spec_has_tag_array r \<and> \<not> spec_has_tag_string r"
    by (simp add: spec_has_tag_array_def spec_has_tag_string_def tags_of_def js_def ch_def)
  show ?thesis
    using untagged_record_faults [where model = \<open>\<lambda>p. Inr (js ''[{"tags":["Vegan"]}, {"name":"Dal"}]'')\<close>
        and availableIngredients = "js ''rice''" and dietType = "js ''vegan''"
        and st = "\<lparr>recipes = JArray [JNull], isGenerating = False, toasts = []\<rparr>", OF _ _ p u]
    by simp
qed

end
